theory Spec2Isabelle
  imports Main "HOL-Library.FSet" "HOL-Library.Product_Lexorder"
begin

section \<open>Sentences\<close>

text \<open>
  A cell is a pair \<open>(row, column)\<close> of Python integers. A \<open>Sentence\<close> object holds a
  (finite) Python set of cells and an integer count.
\<close>

type_synonym cell = "int \<times> int"

record sentence =
  cells :: "cell fset"
  count :: int

text \<open>\<open>Sentence.__init__\<close>.\<close>

definition Sentence :: "cell fset \<Rightarrow> int \<Rightarrow> sentence" where
  "Sentence cs n = \<lparr>cells = cs, count = n\<rparr>"

text \<open>\<open>Sentence.__eq__\<close>: structural equality of the two fields.\<close>

definition sentence_eq :: "sentence \<Rightarrow> sentence \<Rightarrow> bool" where
  "sentence_eq s other \<longleftrightarrow> cells s = cells other \<and> count s = count other"

text \<open>\<open>Sentence.known_mines\<close> and \<open>Sentence.known_safes\<close>.\<close>

definition known_mines :: "sentence \<Rightarrow> cell fset" where
  "known_mines s = (if int (fcard (cells s)) = count s then cells s else {||})"

definition known_safes :: "sentence \<Rightarrow> cell fset" where
  "known_safes s = (if count s = 0 then cells s else {||})"

text \<open>\<open>Sentence.mark_mine\<close> and \<open>Sentence.mark_safe\<close>: the object after the call.\<close>

definition sentence_mark_mine :: "cell \<Rightarrow> sentence \<Rightarrow> sentence" where
  "sentence_mark_mine c s =
     (if c |\<in>| cells s then s\<lparr>cells := cells s |-| {|c|}, count := count s - 1\<rparr> else s)"

definition sentence_mark_safe :: "cell \<Rightarrow> sentence \<Rightarrow> sentence" where
  "sentence_mark_safe c s =
     (if c |\<in>| cells s then s\<lparr>cells := cells s |-| {|c|}\<rparr> else s)"

section \<open>The engine state\<close>

text \<open>
  Sentences are mutable objects that the knowledge list, its shallow copies and the loop
  variables share. The state therefore carries an explicit store: \<open>heap\<close> maps a
  reference to the current value of the object, \<open>knowledge\<close> is the list of references
  held by \<open>self.knowledge\<close>, and \<open>nxt\<close> is the next unused reference.
\<close>

type_synonym ref = nat

record ai =
  height :: int
  width :: int
  moves_made :: "cell fset"
  mines :: "cell fset"
  safes :: "cell fset"
  knowledge :: "ref list"
  heap :: "ref \<Rightarrow> sentence"
  nxt :: ref

datatype error = ValueError

text \<open>\<open>MinesweeperAI.__init__\<close>; nothing is allocated yet.\<close>

definition init :: "int \<Rightarrow> int \<Rightarrow> ai" where
  "init h w = \<lparr>height = h, width = w, moves_made = {||}, mines = {||}, safes = {||},
                knowledge = [], heap = (\<lambda>_. Sentence {||} 0), nxt = 0\<rparr>"

text \<open>In-place mutation of the object behind a reference.\<close>

definition update_sentence :: "(sentence \<Rightarrow> sentence) \<Rightarrow> ref \<Rightarrow> ai \<Rightarrow> ai" where
  "update_sentence f a st = st\<lparr>heap := (heap st)(a := f (heap st a))\<rparr>"

text \<open>\<open>MinesweeperAI.mark_mine\<close> and \<open>MinesweeperAI.mark_safe\<close>.\<close>

definition mark_mine :: "cell \<Rightarrow> ai \<Rightarrow> ai" where
  "mark_mine c st =
     fold (update_sentence (sentence_mark_mine c)) (knowledge st)
          (st\<lparr>mines := finsert c (mines st)\<rparr>)"

definition mark_safe :: "cell \<Rightarrow> ai \<Rightarrow> ai" where
  "mark_safe c st =
     fold (update_sentence (sentence_mark_safe c)) (knowledge st)
          (st\<lparr>safes := finsert c (safes st)\<rparr>)"

text \<open>
  \<open>for cell in cs: self.mark_mine(cell)\<close> (and the same for \<open>mark_safe\<close>). Python iterates
  a set in an unspecified order; the model takes the sorted one. Lemmas
  \<open>mark_mines_order\<close> and \<open>mark_safes_order\<close> below show that the order is irrelevant.
\<close>

definition mark_mines :: "cell fset \<Rightarrow> ai \<Rightarrow> ai" where
  "mark_mines cs st = fold mark_mine (sorted_list_of_fset cs) st"

definition mark_safes :: "cell fset \<Rightarrow> ai \<Rightarrow> ai" where
  "mark_safes cs st = fold mark_safe (sorted_list_of_fset cs) st"

text \<open>
  \<open>list.remove(x)\<close>: drops the first element that is \<open>==\<close> to \<open>x\<close> (here
  \<open>Sentence.__eq__\<close> on the current values), and raises \<open>ValueError\<close> when there is none.
\<close>

fun list_remove :: "(ref \<Rightarrow> sentence) \<Rightarrow> sentence \<Rightarrow> ref list \<Rightarrow> ref list option" where
  "list_remove h s [] = None"
| "list_remove h s (b # bs) =
     (if sentence_eq (h b) s then Some bs else map_option ((#) b) (list_remove h s bs))"

text \<open>A \<open>for\<close> loop whose body may raise.\<close>

fun for_each :: "('a \<Rightarrow> 's \<Rightarrow> error + 's) \<Rightarrow> 'a list \<Rightarrow> 's \<Rightarrow> error + 's" where
  "for_each f [] s = Inr s"
| "for_each f (x # xs) s = (case f x s of Inl e \<Rightarrow> Inl e | Inr s' \<Rightarrow> for_each f xs s')"

section \<open>Trivial resolution\<close>

text \<open>
  The body of the \<open>for sentence in copy_kb\<close> loop of \<open>trivial_update\<close>; the loop state is
  the engine state and the \<open>change\<close> flag.
\<close>

definition trivial_step :: "ref \<Rightarrow> ai \<times> bool \<Rightarrow> error + ai \<times> bool" where
  "trivial_step a = (\<lambda>(st, change).
     let s = heap st a in
     if fcard (cells s) = 0 then
       (case list_remove (heap st) s (knowledge st) of
          None \<Rightarrow> Inl ValueError
        | Some k \<Rightarrow> Inr (st\<lparr>knowledge := k\<rparr>, change))
     else if count s = int (fcard (cells s)) then Inr (mark_mines (cells s) st, True)
     else if count s = 0 then Inr (mark_safes (cells s) st, True)
     else Inr (st, change))"

text \<open>One round of the \<open>while change\<close> loop: \<open>change = False\<close>, copy, scan.\<close>

definition trivial_pass :: "ai \<Rightarrow> error + ai \<times> bool" where
  "trivial_pass st = for_each trivial_step (knowledge st) (st, False)"

function trivial_update :: "ai \<Rightarrow> error + ai" where
  "trivial_update st =
     (case trivial_pass st of
        Inl e \<Rightarrow> Inl e
      | Inr (st', change) \<Rightarrow> if change then trivial_update st' else Inr st')"
  by pat_completeness auto

section \<open>Subset inference\<close>

text \<open>
  The classification of a freshly built sentence, written out twice in the source (in
  \<open>inference_update\<close> and in \<open>add_knowledge\<close>): all safe, all mines, or
  \<open>self.knowledge.append(new_sentence)\<close>, which stores the new object behind the next
  unused reference.
\<close>

definition append_sentence :: "sentence \<Rightarrow> ai \<Rightarrow> ai" where
  "append_sentence new st =
     st\<lparr>knowledge := knowledge st @ [nxt st],
        heap := (heap st)(nxt st := new),
        nxt := Suc (nxt st)\<rparr>"

definition classify :: "sentence \<Rightarrow> ai \<Rightarrow> ai" where
  "classify new st =
     (if count new = 0 then mark_safes (cells new) st
      else if count new = int (fcard (cells new)) then mark_mines (cells new) st
      else append_sentence new st)"

text \<open>
  The body of the two nested loops of \<open>inference_update\<close>. The loop variables are
  references into the snapshot \<open>kb_copy\<close>; their sentences are read from the store when
  the pair is visited.
\<close>

definition inference_step :: "ref \<Rightarrow> ref \<Rightarrow> ai \<times> bool \<Rightarrow> error + ai \<times> bool" where
  "inference_step a1 a2 = (\<lambda>(st, change).
     let sentence_1 = heap st a1; sentence_2 = heap st a2 in
     if sentence_eq sentence_1 sentence_2 then Inr (st, change)
     else if cells sentence_1 |\<subseteq>| cells sentence_2 then
       (let new_sentence = Sentence (cells sentence_2 |-| cells sentence_1)
                                    (count sentence_2 - count sentence_1)
        in case trivial_update (classify new_sentence st) of
             Inl e \<Rightarrow> Inl e
           | Inr st' \<Rightarrow> Inr (st', True))
     else Inr (st, change))"

definition inference_pass :: "ai \<Rightarrow> error + ai \<times> bool" where
  "inference_pass st =
     (let kb_copy = knowledge st
      in for_each (\<lambda>a1. for_each (\<lambda>a2. inference_step a1 a2) kb_copy) kb_copy (st, False))"

text \<open>
  The \<open>while change\<close> loop of \<open>inference_update\<close>. \<open>None\<close> is a run that never leaves
  the loop, \<open>Some (Inl e)\<close> a raised exception, \<open>Some (Inr st)\<close> a normal return.
\<close>

partial_function (option) inference_update :: "ai \<Rightarrow> (error + ai) option" where
  "inference_update st =
     (case inference_pass st of
        Inl e \<Rightarrow> Some (Inl e)
      | Inr (st', change) \<Rightarrow> if change then inference_update st' else Some (Inr st'))"

section \<open>Observation ingestion\<close>

text \<open>\<open>range(x - 1, x + 2)\<close>.\<close>

definition range3 :: "int \<Rightarrow> int list" where
  "range3 x = [x - 1, x, x + 1]"

text \<open>
  The body of the neighbour loops of \<open>add_knowledge\<close>; the loop state is
  \<open>cells_to_store\<close> and the local \<open>count\<close> (here \<open>cnt\<close>).
\<close>

definition neighbour_step :: "ai \<Rightarrow> cell \<Rightarrow> cell fset \<times> int \<Rightarrow> cell fset \<times> int" where
  "neighbour_step st = (\<lambda>(i, j) (cells_to_store, cnt).
     if i < 0 \<or> j < 0 then (cells_to_store, cnt)
     else if i \<ge> height st \<or> j \<ge> width st then (cells_to_store, cnt)
     else if (i, j) |\<in>| moves_made st then (cells_to_store, cnt)
     else if (i, j) |\<in>| mines st then (cells_to_store, cnt - 1)
     else if (i, j) |\<in>| safes st then (cells_to_store, cnt)
     else (finsert (i, j) cells_to_store, cnt))"

definition add_knowledge :: "cell \<Rightarrow> int \<Rightarrow> ai \<Rightarrow> (error + ai) option" where
  "add_knowledge cell cnt st =
     (let st1 = st\<lparr>moves_made := finsert cell (moves_made st)\<rparr>;
          st2 = mark_safe cell st1;
          (cells_to_store, cnt') =
             fold (neighbour_step st2)
                  (List.product (range3 (fst cell)) (range3 (snd cell))) ({||}, cnt);
          new_sentence = Sentence cells_to_store cnt';
          st3 = classify new_sentence st2
      in case trivial_update st3 of
           Inl e \<Rightarrow> Some (Inl e)
         | Inr st4 \<Rightarrow> inference_update st4)"

section \<open>Move queries\<close>

text \<open>
  \<open>set.pop()\<close> and \<open>random.sample\<close> may return any element, so a query is modelled by
  the set of its possible outcomes: the returned value and the engine state afterwards.
\<close>

definition make_safe_move :: "ai \<Rightarrow> (cell option \<times> ai) set" where
  "make_safe_move st =
     (let safe_moves = safes st |-| moves_made st
      in if fcard safe_moves = 0 then {(None, st)}
         else (\<lambda>c. (Some c, st)) ` fset safe_moves)"

definition all_cells :: "ai \<Rightarrow> cell fset" where
  "all_cells st = fset_of_list (List.product [0..height st - 1] [0..width st - 1])"

definition make_random_move :: "ai \<Rightarrow> (cell option \<times> ai) set" where
  "make_random_move st =
     (let cells_to_choose = all_cells st |-| moves_made st |-| mines st
      in if fcard cells_to_choose \<noteq> 0 then (\<lambda>c. (Some c, st)) ` fset cells_to_choose
         else {(None, st)})"

section \<open>Closed forms of the marking operations\<close>

lemma fold_update_sentence:
  assumes "\<And>s. f (f s) = f s"
  shows "fold (update_sentence f) as st =
         st\<lparr>heap := (\<lambda>a. if a \<in> set as then f (heap st a) else heap st a)\<rparr>"
proof (induction as arbitrary: st)
  case Nil
  show ?case by simp
next
  case (Cons a as)
  show ?case
    apply (simp add: Cons.IH)
    apply (simp add: update_sentence_def assms fun_eq_iff)
    done
qed

lemma sentence_mark_mine_idem: "sentence_mark_mine c (sentence_mark_mine c s) = sentence_mark_mine c s"
  by (simp add: sentence_mark_mine_def)

lemma sentence_mark_safe_idem: "sentence_mark_safe c (sentence_mark_safe c s) = sentence_mark_safe c s"
  by (simp add: sentence_mark_safe_def)

lemma mark_mine_eq:
  "mark_mine c st =
     st\<lparr>mines := finsert c (mines st),
        heap := (\<lambda>a. if a \<in> set (knowledge st) then sentence_mark_mine c (heap st a) else heap st a)\<rparr>"
  unfolding mark_mine_def fold_update_sentence[where f="sentence_mark_mine c", OF sentence_mark_mine_idem]
  by (rule ai.equality; simp add: fun_eq_iff)

lemma mark_safe_eq:
  "mark_safe c st =
     st\<lparr>safes := finsert c (safes st),
        heap := (\<lambda>a. if a \<in> set (knowledge st) then sentence_mark_safe c (heap st a) else heap st a)\<rparr>"
  unfolding mark_safe_def fold_update_sentence[where f="sentence_mark_safe c", OF sentence_mark_safe_idem]
  by (rule ai.equality; simp add: fun_eq_iff)

definition minus_mines :: "cell fset \<Rightarrow> sentence \<Rightarrow> sentence" where
  "minus_mines X s = s\<lparr>cells := cells s |-| X, count := count s - int (fcard (cells s |\<inter>| X))\<rparr>"

definition minus_safes :: "cell fset \<Rightarrow> sentence \<Rightarrow> sentence" where
  "minus_safes X s = s\<lparr>cells := cells s |-| X\<rparr>"

lemma fcard_inter_finsert:
  "fcard (A |\<inter>| finsert x X) = (if x |\<in>| A then 1 else 0) + fcard ((A |-| {|x|}) |\<inter>| X)"
proof (cases "x |\<in>| A")
  case True
  have "A |\<inter>| finsert x X = finsert x ((A |-| {|x|}) |\<inter>| X)"
    using True by auto
  moreover have "x |\<notin>| (A |-| {|x|}) |\<inter>| X"
    by auto
  ultimately show ?thesis
    using True by (simp add: fcard_finsert_disjoint)
next
  case False
  then have "A |\<inter>| finsert x X = (A |-| {|x|}) |\<inter>| X"
    by auto
  with False show ?thesis by simp
qed

lemma minus_mines_finsert:
  "minus_mines X (sentence_mark_mine x s) = minus_mines (finsert x X) s"
proof -
  have "cells s |-| {|x|} |-| X = cells s |-| finsert x X"
    by auto
  then show ?thesis
    by (simp add: minus_mines_def sentence_mark_mine_def fcard_inter_finsert)
qed

lemma minus_safes_finsert:
  "minus_safes X (sentence_mark_safe x s) = minus_safes (finsert x X) s"
proof -
  have "cells s |-| {|x|} |-| X = cells s |-| finsert x X"
    by auto
  then show ?thesis
    by (simp add: minus_safes_def sentence_mark_safe_def)
qed

lemma fold_mark_mine:
  "fold mark_mine xs st =
     (st\<lparr>mines := mines st |\<union>| fset_of_list xs,
        heap := (\<lambda>a. if a \<in> set (knowledge st) then minus_mines (fset_of_list xs) (heap st a)
                      else heap st a)\<rparr>)"
  (is "_ = ?R st xs")
proof (induction xs arbitrary: st)
  case Nil
  show ?case by (rule ai.equality; simp add: fun_eq_iff minus_mines_def)
next
  case (Cons x xs)
  have "fold mark_mine (x # xs) st = fold mark_mine xs (mark_mine x st)"
    by simp
  also have "\<dots> = ?R (mark_mine x st) xs"
    by (rule Cons.IH)
  also have "\<dots> = ?R st (x # xs)"
    by (rule ai.equality; simp add: mark_mine_eq fun_eq_iff minus_mines_finsert)
  finally show ?case .
qed

lemma fold_mark_safe:
  "fold mark_safe xs st =
     (st\<lparr>safes := safes st |\<union>| fset_of_list xs,
        heap := (\<lambda>a. if a \<in> set (knowledge st) then minus_safes (fset_of_list xs) (heap st a)
                      else heap st a)\<rparr>)"
  (is "_ = ?R st xs")
proof (induction xs arbitrary: st)
  case Nil
  show ?case by (rule ai.equality; simp add: fun_eq_iff minus_safes_def)
next
  case (Cons x xs)
  have "fold mark_safe (x # xs) st = fold mark_safe xs (mark_safe x st)"
    by simp
  also have "\<dots> = ?R (mark_safe x st) xs"
    by (rule Cons.IH)
  also have "\<dots> = ?R st (x # xs)"
    by (rule ai.equality; simp add: mark_safe_eq fun_eq_iff minus_safes_finsert)
  finally show ?case .
qed

lemma mark_mines_eq:
  "mark_mines cs st =
     st\<lparr>mines := mines st |\<union>| cs,
        heap := (\<lambda>a. if a \<in> set (knowledge st) then minus_mines cs (heap st a) else heap st a)\<rparr>"
  by (simp add: mark_mines_def fold_mark_mine cong: if_cong)

lemma mark_safes_eq:
  "mark_safes cs st =
     st\<lparr>safes := safes st |\<union>| cs,
        heap := (\<lambda>a. if a \<in> set (knowledge st) then minus_safes cs (heap st a) else heap st a)\<rparr>"
  by (simp add: mark_safes_def fold_mark_safe cong: if_cong)

lemma mark_mines_order: "fset_of_list xs = cs \<Longrightarrow> fold mark_mine xs st = mark_mines cs st"
  by (simp add: mark_mines_eq fold_mark_mine cong: if_cong)

lemma mark_safes_order: "fset_of_list xs = cs \<Longrightarrow> fold mark_safe xs st = mark_safes cs st"
  by (simp add: mark_safes_eq fold_mark_safe cong: if_cong)

lemma mark_mines_fields [simp]:
  "height (mark_mines cs st) = height st"
  "width (mark_mines cs st) = width st"
  "moves_made (mark_mines cs st) = moves_made st"
  "mines (mark_mines cs st) = mines st |\<union>| cs"
  "safes (mark_mines cs st) = safes st"
  "knowledge (mark_mines cs st) = knowledge st"
  "nxt (mark_mines cs st) = nxt st"
  "heap (mark_mines cs st) a =
     (if a \<in> set (knowledge st) then minus_mines cs (heap st a) else heap st a)"
  by (simp_all add: mark_mines_eq)

lemma mark_safes_fields [simp]:
  "height (mark_safes cs st) = height st"
  "width (mark_safes cs st) = width st"
  "moves_made (mark_safes cs st) = moves_made st"
  "mines (mark_safes cs st) = mines st"
  "safes (mark_safes cs st) = safes st |\<union>| cs"
  "knowledge (mark_safes cs st) = knowledge st"
  "nxt (mark_safes cs st) = nxt st"
  "heap (mark_safes cs st) a =
     (if a \<in> set (knowledge st) then minus_safes cs (heap st a) else heap st a)"
  by (simp_all add: mark_safes_eq)

lemma mark_mine_fields [simp]:
  "height (mark_mine c st) = height st"
  "width (mark_mine c st) = width st"
  "moves_made (mark_mine c st) = moves_made st"
  "mines (mark_mine c st) = finsert c (mines st)"
  "safes (mark_mine c st) = safes st"
  "knowledge (mark_mine c st) = knowledge st"
  "nxt (mark_mine c st) = nxt st"
  "heap (mark_mine c st) a =
     (if a \<in> set (knowledge st) then sentence_mark_mine c (heap st a) else heap st a)"
  by (simp_all add: mark_mine_eq)

lemma mark_safe_fields [simp]:
  "height (mark_safe c st) = height st"
  "width (mark_safe c st) = width st"
  "moves_made (mark_safe c st) = moves_made st"
  "mines (mark_safe c st) = mines st"
  "safes (mark_safe c st) = finsert c (safes st)"
  "knowledge (mark_safe c st) = knowledge st"
  "nxt (mark_safe c st) = nxt st"
  "heap (mark_safe c st) a =
     (if a \<in> set (knowledge st) then sentence_mark_safe c (heap st a) else heap st a)"
  by (simp_all add: mark_safe_eq)

lemma minus_fields [simp]:
  "cells (minus_mines X s) = cells s |-| X"
  "count (minus_mines X s) = count s - int (fcard (cells s |\<inter>| X))"
  "cells (minus_safes X s) = cells s |-| X"
  "count (minus_safes X s) = count s"
  by (simp_all add: minus_mines_def minus_safes_def)

section \<open>Termination of trivial resolution\<close>

text \<open>
  The measure is the number of knowledge entries whose sentence still has cells. A round that
  sets \<open>change\<close> empties at least one of them; \<open>copy_ok\<close> says that every non-empty
  sentence of the snapshot is still in the knowledge list.
\<close>

definition live_count :: "ai \<Rightarrow> nat" where
  "live_count st = length (filter (\<lambda>a. cells (heap st a) \<noteq> {||}) (knowledge st))"

definition copy_ok :: "ref list \<Rightarrow> ai \<Rightarrow> bool" where
  "copy_ok as st \<longleftrightarrow> (\<forall>a\<in>set as. cells (heap st a) \<noteq> {||} \<longrightarrow> a \<in> set (knowledge st))"

lemma length_filter_mono:
  "(\<And>x. x \<in> set xs \<Longrightarrow> Q x \<Longrightarrow> P x) \<Longrightarrow> length (filter Q xs) \<le> length (filter P xs)"
  by (induction xs) auto

lemma length_filter_less:
  "(\<And>x. x \<in> set xs \<Longrightarrow> Q x \<Longrightarrow> P x) \<Longrightarrow> a \<in> set xs \<Longrightarrow> P a \<Longrightarrow> \<not> Q a
   \<Longrightarrow> length (filter Q xs) < length (filter P xs)"
proof (induction xs)
  case Nil
  then show ?case by simp
next
  case (Cons x xs)
  have mono: "length (filter Q xs) \<le> length (filter P xs)"
    using Cons.prems(1) by (intro length_filter_mono) auto
  show ?case
  proof (cases "x = a")
    case True
    with Cons.prems mono show ?thesis by auto
  next
    case False
    with Cons.prems have "a \<in> set xs" by simp
    then have "length (filter Q xs) < length (filter P xs)"
      using Cons.prems by (intro Cons.IH) auto
    then show ?thesis using Cons.prems(1)[of x] by auto
  qed
qed

lemma list_remove_Some:
  "list_remove h s ks = Some k \<Longrightarrow>
   \<exists>xs b ys. ks = xs @ b # ys \<and> k = xs @ ys \<and> sentence_eq (h b) s"
proof (induction ks arbitrary: k)
  case Nil
  then show ?case by simp
next
  case (Cons b bs)
  show ?case
  proof (cases "sentence_eq (h b) s")
    case True
    with Cons.prems have "k = bs" by simp
    with True show ?thesis by (intro exI[of _ "[]"] exI[of _ b] exI[of _ bs]) simp
  next
    case False
    with Cons.prems obtain k' where k': "list_remove h s bs = Some k'" "k = b # k'"
      by auto
    from Cons.IH[OF k'(1)] obtain xs c ys where "bs = xs @ c # ys" "k' = xs @ ys" "sentence_eq (h c) s"
      by blast
    with k'(2) show ?thesis
      by (intro exI[of _ "b # xs"] exI[of _ c] exI[of _ ys]) simp
  qed
qed

lemma trivial_step_measure:
  assumes "trivial_step a (st, ch) = Inr (st1, ch1)" and "copy_ok (a # as) st"
  shows "copy_ok as st1 \<and> live_count st1 \<le> live_count st \<and> (ch1 \<longrightarrow> ch \<or> live_count st1 < live_count st)"
proof -
  let ?s = "heap st a"
  consider (empty) "cells ?s = {||}"
    | (mine) "cells ?s \<noteq> {||}" "count ?s = int (fcard (cells ?s))"
    | (safe) "cells ?s \<noteq> {||}" "count ?s \<noteq> int (fcard (cells ?s))" "count ?s = 0"
    | (keep) "cells ?s \<noteq> {||}" "count ?s \<noteq> int (fcard (cells ?s))" "count ?s \<noteq> 0"
    by blast
  then show ?thesis
  proof cases
    case empty
    with assms(1) obtain k where k: "list_remove (heap st) ?s (knowledge st) = Some k"
      and st1: "st1 = st\<lparr>knowledge := k\<rparr>" "ch1 = ch"
      by (auto simp: trivial_step_def split: option.splits)
    from list_remove_Some[OF k] obtain xs b ys where
      ks: "knowledge st = xs @ b # ys" "k = xs @ ys" "sentence_eq (heap st b) ?s"
      by blast
    from ks(3) empty have b: "cells (heap st b) = {||}" by (simp add: sentence_eq_def)
    have "copy_ok as st1"
      using assms(2) b by (auto simp: copy_ok_def st1 ks)
    moreover have "live_count st1 = live_count st"
      using b by (simp add: live_count_def st1 ks)
    ultimately show ?thesis by (simp add: st1)
  next
    case mine
    with assms(1) have st1: "st1 = mark_mines (cells ?s) st"
      by (auto simp: trivial_step_def)
    have a: "a \<in> set (knowledge st)"
      using assms(2) mine(1) by (simp add: copy_ok_def)
    have "copy_ok as st1"
      using assms(2) by (auto simp: copy_ok_def st1 split: if_splits)
    moreover have "live_count st1 < live_count st"
      unfolding live_count_def st1 mark_mines_fields
      by (rule length_filter_less[where a = a])
         (use a mine(1) in \<open>auto split: if_splits\<close>)
    ultimately show ?thesis by simp
  next
    case safe
    with assms(1) have st1: "st1 = mark_safes (cells ?s) st"
      by (auto simp: trivial_step_def)
    have a: "a \<in> set (knowledge st)"
      using assms(2) safe(1) by (simp add: copy_ok_def)
    have "copy_ok as st1"
      using assms(2) by (auto simp: copy_ok_def st1 split: if_splits)
    moreover have "live_count st1 < live_count st"
      unfolding live_count_def st1 mark_safes_fields
      by (rule length_filter_less[where a = a])
         (use a safe(1) in \<open>auto split: if_splits\<close>)
    ultimately show ?thesis by simp
  next
    case keep
    with assms(1) have "st1 = st" "ch1 = ch"
      by (auto simp: trivial_step_def)
    with assms(2) show ?thesis by (simp add: copy_ok_def)
  qed
qed

lemma trivial_loop_measure:
  "for_each trivial_step as (st, ch) = Inr (st', ch') \<Longrightarrow> copy_ok as st \<Longrightarrow>
   live_count st' \<le> live_count st \<and> (ch' \<longrightarrow> ch \<or> live_count st' < live_count st)"
proof (induction as arbitrary: st ch)
  case Nil
  then show ?case by simp
next
  case (Cons a as)
  from Cons.prems(1) obtain st1 ch1 where
    step: "trivial_step a (st, ch) = Inr (st1, ch1)" and
    rest: "for_each trivial_step as (st1, ch1) = Inr (st', ch')"
    by (auto split: sum.splits)
  from trivial_step_measure[OF step Cons.prems(2)] Cons.IH[OF rest]
  show ?case by auto
qed

lemma trivial_pass_measure:
  "trivial_pass st = Inr (st', True) \<Longrightarrow> live_count st' < live_count st"
  using trivial_loop_measure[of "knowledge st" st False st' True]
  by (simp add: trivial_pass_def copy_ok_def)

termination trivial_update
  by (relation "measure live_count") (auto dest: trivial_pass_measure)

declare trivial_update.simps [simp del]

lemma trivial_update_unfold:
  "trivial_pass st = Inr (st', True) \<Longrightarrow> trivial_update st = trivial_update st'"
  "trivial_pass st = Inr (st', False) \<Longrightarrow> trivial_update st = Inr st'"
  "trivial_pass st = Inl e \<Longrightarrow> trivial_update st = Inl e"
  by (subst trivial_update.simps, simp)+

section \<open>Loop rules and monotonicity of the classification sets\<close>

lemma for_each_inv:
  assumes "for_each f xs s = Inr s'" and "I s"
    and "\<And>x t t'. x \<in> set xs \<Longrightarrow> I t \<Longrightarrow> f x t = Inr t' \<Longrightarrow> I t'"
  shows "I s'"
  using assms
proof (induction xs arbitrary: s)
  case Nil
  then show ?case by simp
next
  case (Cons x xs)
  from Cons.prems(1) obtain t where t: "f x s = Inr t" "for_each f xs t = Inr s'"
    by (auto split: sum.splits)
  have "I t" using Cons.prems(2,3) t(1) by auto
  then show ?case using Cons.IH[OF t(2)] Cons.prems(3) by auto
qed

definition grows :: "ai \<Rightarrow> ai \<Rightarrow> bool" where
  "grows st st' \<longleftrightarrow>
     height st' = height st \<and> width st' = width st \<and> moves_made st' = moves_made st \<and>
     mines st |\<subseteq>| mines st' \<and> safes st |\<subseteq>| safes st'"

lemma grows_refl [simp]: "grows st st"
  by (simp add: grows_def)

lemma grows_trans: "grows s t \<Longrightarrow> grows t u \<Longrightarrow> grows s u"
  by (auto simp: grows_def)

lemma grows_marks [simp]:
  "grows st (mark_mine c st)" "grows st (mark_safe c st)"
  "grows st (mark_mines cs st)" "grows st (mark_safes cs st)"
  by (auto simp: grows_def)

lemma grows_classify [simp]: "grows st (classify new st)"
  by (simp add: classify_def append_sentence_def) (simp add: grows_def)

lemma trivial_step_grows:
  "trivial_step a (st, ch) = Inr (st', ch') \<Longrightarrow> grows st st'"
  by (auto simp: trivial_step_def Let_def grows_def split: if_splits option.splits)

lemma trivial_pass_grows:
  assumes "trivial_pass st = Inr (st', ch)" shows "grows st st'"
proof -
  have "grows st (fst (st', ch))"
    using assms[unfolded trivial_pass_def]
    by (rule for_each_inv[where I = "\<lambda>t. grows st (fst t)"])
       (auto elim!: grows_trans dest: trivial_step_grows)
  then show ?thesis by simp
qed

lemma trivial_update_grows:
  "trivial_update st = Inr st' \<Longrightarrow> grows st st'"
proof (induction st rule: trivial_update.induct)
  case (1 st)
  from "1.prems" obtain st1 ch where p: "trivial_pass st = Inr (st1, ch)"
    by (subst (asm) trivial_update.simps) (auto split: sum.splits)
  show ?case
  proof (cases ch)
    case True
    with p "1.prems" have "trivial_update st1 = Inr st'"
      by (simp add: trivial_update_unfold(1))
    with "1.IH"[OF p refl True] have "grows st1 st'" by simp
    with trivial_pass_grows[OF p] show ?thesis by (rule grows_trans)
  next
    case False
    with p "1.prems" have "st' = st1"
      by (simp add: trivial_update_unfold(2))
    with trivial_pass_grows[OF p] show ?thesis by simp
  qed
qed

lemma inference_step_grows:
  "inference_step a1 a2 (st, ch) = Inr (st', ch') \<Longrightarrow> grows st st'"
  by (auto simp: inference_step_def Let_def split: if_splits sum.splits
           intro: grows_trans[OF grows_classify trivial_update_grows])

lemma inference_pass_grows:
  assumes "inference_pass st = Inr (st', ch)" shows "grows st st'"
proof -
  have inner: "grows st (fst t')"
    if "for_each (inference_step a1) (knowledge st) t = Inr t'" "grows st (fst t)" for a1 t t'
    using that
    by (rule for_each_inv[where I = "\<lambda>t. grows st (fst t)"])
       (auto elim!: grows_trans dest: inference_step_grows)
  have "grows st (fst (st', ch))"
    using assms[unfolded inference_pass_def Let_def]
    by (rule for_each_inv[where I = "\<lambda>t. grows st (fst t)"]) (auto intro: inner)
  then show ?thesis by simp
qed

lemma inference_update_grows_aux:
  assumes "inference_update st = Some r"
  shows "\<forall>st'. r = Inr st' \<longrightarrow> grows st st'"
proof (rule inference_update.raw_induct
         [where P = "\<lambda>st r. \<forall>st'. r = Inr st' \<longrightarrow> grows st st'", OF _ assms])
  fix inf st r
  assume IH: "\<And>x y. inf x = Some y \<Longrightarrow> \<forall>st'. y = Inr st' \<longrightarrow> grows x st'"
    and eq: "(case inference_pass st of
                Inl e \<Rightarrow> Some (Inl e)
              | Inr (st', change) \<Rightarrow> if change then inf st' else Some (Inr st')) = Some r"
  show "\<forall>st'. r = Inr st' \<longrightarrow> grows st st'"
  proof (cases "inference_pass st")
    case (Inl e)
    with eq show ?thesis by auto
  next
    case (Inr p)
    obtain st1 ch where p: "p = (st1, ch)" by (cases p)
    note pass = Inr[unfolded p]
    show ?thesis
    proof (cases ch)
      case True
      with pass eq have "inf st1 = Some r" by simp
      from IH[OF this] inference_pass_grows[OF pass]
      show ?thesis by (blast intro: grows_trans)
    next
      case False
      with pass eq have "r = Inr st1" by simp
      with inference_pass_grows[OF pass] show ?thesis by simp
    qed
  qed
qed

lemma inference_update_grows:
  "inference_update st = Some (Inr st') \<Longrightarrow> grows st st'"
  using inference_update_grows_aux by blast


section \<open>States on which the two fixpoint loops do nothing\<close>

lemma for_each_skip:
  "(\<And>x. x \<in> set xs \<Longrightarrow> f x s = Inr s) \<Longrightarrow> for_each f xs s = Inr s"
  by (induction xs) auto

definition settled :: "ai \<Rightarrow> bool" where
  "settled st \<longleftrightarrow>
     (\<forall>a\<in>set (knowledge st).
        cells (heap st a) \<noteq> {||} \<and> count (heap st a) \<noteq> int (fcard (cells (heap st a))) \<and>
        count (heap st a) \<noteq> 0)"

lemma trivial_update_settled: "settled st \<Longrightarrow> trivial_update st = Inr st"
proof -
  assume s: "settled st"
  have "trivial_pass st = Inr (st, False)"
    unfolding trivial_pass_def
    by (rule for_each_skip) (use s in \<open>auto simp: settled_def trivial_step_def Let_def\<close>)
  then show ?thesis by (rule trivial_update_unfold(2))
qed

definition quiet :: "ai \<Rightarrow> bool" where
  "quiet st \<longleftrightarrow>
     (\<forall>a1\<in>set (knowledge st). \<forall>a2\<in>set (knowledge st).
        sentence_eq (heap st a1) (heap st a2) \<or> \<not> cells (heap st a1) |\<subseteq>| cells (heap st a2))"

lemma inference_update_quiet: "quiet st \<Longrightarrow> inference_update st = Some (Inr st)"
proof -
  assume q: "quiet st"
  have "inference_pass st = Inr (st, False)"
    unfolding inference_pass_def Let_def
    by (intro for_each_skip) (use q in \<open>auto simp: quiet_def inference_step_def Let_def\<close>)
  then show ?thesis by (subst inference_update.simps) simp
qed

section \<open>Two observations of the same cell on a 3 by 3 board\<close>

definition N8 :: "cell fset" where
  "N8 = {|(2, 2), (2, 1), (2, 0), (1, 2), (1, 0), (0, 2), (0, 1), (0, 0)|}"

definition first_state :: ai where
  "first_state = \<lparr>height = 3, width = 3, moves_made = {|(1, 1)|}, mines = {||}, safes = {|(1, 1)|},
                  knowledge = [0], heap = (\<lambda>_. Sentence {||} 0)(0 := Sentence N8 1), nxt = 1\<rparr>"

lemma fcard_N8: "fcard N8 = 8"
  by (simp add: N8_def fcard_finsert_if)

lemma add_first: "add_knowledge (1, 1) 1 (init 3 3) = Some (Inr first_state)"
proof -
  let ?st2 = "mark_safe (1, 1) ((init 3 3)\<lparr>moves_made := finsert (1, 1) (moves_made (init 3 3))\<rparr>)"
  have nb: "fold (neighbour_step ?st2) (List.product (range3 (fst (1, 1))) (range3 (snd (1, 1)))) ({||}, 1)
            = (N8, 1)"
    by (simp add: range3_def neighbour_step_def init_def N8_def)
  have cl: "classify (Sentence N8 1) ?st2 = first_state"
    unfolding classify_def
    by (simp add: Sentence_def fcard_N8) (rule ai.equality; simp add: append_sentence_def first_state_def init_def Sentence_def fun_eq_iff)
  have "settled first_state"
    by (simp add: settled_def first_state_def Sentence_def fcard_N8) (simp add: N8_def)
  then have tu: "trivial_update first_state = Inr first_state"
    by (rule trivial_update_settled)
  have "quiet first_state"
    by (simp add: quiet_def first_state_def sentence_eq_def)
  then have iu: "inference_update first_state = Some (Inr first_state)"
    by (rule inference_update_quiet)
  show ?thesis
    unfolding add_knowledge_def Let_def nb
    by (simp add: cl tu iu del: mark_safe_fields)
qed


definition second_state :: ai where
  "second_state = first_state\<lparr>knowledge := [0, 1],
                    heap := (heap first_state)(1 := Sentence N8 1), nxt := 2\<rparr>"

lemma add_second: "add_knowledge (1, 1) 1 first_state = Some (Inr second_state)"
proof -
  let ?st2 = "mark_safe (1, 1) (first_state\<lparr>moves_made := finsert (1, 1) (moves_made first_state)\<rparr>)"
  have st2: "?st2 = first_state"
    by (rule ai.equality; simp add: first_state_def fun_eq_iff sentence_mark_safe_def Sentence_def N8_def)
  have nb: "fold (neighbour_step first_state) (List.product (range3 (fst (1, 1))) (range3 (snd (1, 1)))) ({||}, 1)
            = (N8, 1)"
    by (simp add: range3_def neighbour_step_def first_state_def N8_def)
  have cl: "classify (Sentence N8 1) first_state = second_state"
    unfolding classify_def
    by (simp add: Sentence_def fcard_N8)
       (rule ai.equality; simp add: append_sentence_def second_state_def first_state_def Sentence_def)
  have "settled second_state"
    by (simp add: settled_def second_state_def first_state_def Sentence_def fcard_N8) (simp add: N8_def)
  then have tu: "trivial_update second_state = Inr second_state"
    by (rule trivial_update_settled)
  have "quiet second_state"
    by (simp add: quiet_def second_state_def first_state_def sentence_eq_def)
  then have iu: "inference_update second_state = Some (Inr second_state)"
    by (rule inference_update_quiet)
  show ?thesis
    unfolding add_knowledge_def Let_def st2 nb
    by (simp add: cl tu iu)
qed

lemma add_knowledge_grows:
  assumes "add_knowledge cell cnt st = Some (Inr st')"
  shows "grows (mark_safe cell (st\<lparr>moves_made := finsert cell (moves_made st)\<rparr>)) st'"
proof -
  let ?st1 = "st\<lparr>moves_made := finsert cell (moves_made st)\<rparr>"
  let ?st2 = "mark_safe cell ?st1"
  obtain cs n where nb:
    "fold (neighbour_step ?st2) (List.product (range3 (fst cell)) (range3 (snd cell))) ({||}, cnt) = (cs, n)"
    by (cases "fold (neighbour_step ?st2) (List.product (range3 (fst cell)) (range3 (snd cell))) ({||}, cnt)")
  let ?st3 = "classify (Sentence cs n) ?st2"
  from assms obtain st4 where tu: "trivial_update ?st3 = Inr st4"
    and iu: "inference_update st4 = Some (Inr st')"
    unfolding add_knowledge_def Let_def nb
    by (auto split: sum.splits simp del: mark_safe_fields)
  have "grows ?st2 ?st3" by simp
  also have "grows ?st3 st4" by (rule trivial_update_grows[OF tu])
  also (grows_trans) have "grows st4 st'" by (rule inference_update_grows[OF iu])
  finally (grows_trans) show ?thesis .
qed

section \<open>The worked examples of the two fixpoint loops\<close>

lemma trivial_update_all_mines:
  assumes "A \<noteq> B" and "knowledge st = [a]" and "heap st a = Sentence {|A, B|} 2"
  shows "trivial_update st =
           Inr (st\<lparr>mines := mines st |\<union>| {|A, B|}, knowledge := [],
                   heap := (heap st)(a := Sentence {||} 0)\<rparr>)"
proof -
  let ?st1 = "mark_mines {|A, B|} st"
  have card: "fcard {|A, B|} = 2"
    using assms(1) by (simp add: fcard_finsert_if)
  have h1: "heap ?st1 = (heap st)(a := Sentence {||} 0)"
    using assms card by (auto simp: fun_eq_iff Sentence_def minus_mines_def)
  have p1: "trivial_pass st = Inr (?st1, True)"
    using assms card by (simp add: trivial_pass_def trivial_step_def Sentence_def)
  have p2: "trivial_pass ?st1 = Inr (?st1\<lparr>knowledge := []\<rparr>, False)"
    using assms by (simp add: trivial_pass_def trivial_step_def h1 Sentence_def sentence_eq_def)
  have "trivial_update st = Inr (?st1\<lparr>knowledge := []\<rparr>)"
    by (simp add: trivial_update_unfold(1)[OF p1] trivial_update_unfold(2)[OF p2])
  also have "?st1\<lparr>knowledge := []\<rparr> = st\<lparr>mines := mines st |\<union>| {|A, B|}, knowledge := [],
                   heap := (heap st)(a := Sentence {||} 0)\<rparr>"
    by (rule ai.equality) (simp_all add: h1)
  finally show ?thesis .
qed

lemma trivial_update_all_safe:
  assumes "A \<noteq> B" "A \<noteq> C" "B \<noteq> C" and "knowledge st = [a]"
    and "heap st a = Sentence {|A, B, C|} 0"
  shows "trivial_update st =
           Inr (st\<lparr>safes := safes st |\<union>| {|A, B, C|}, knowledge := [],
                   heap := (heap st)(a := Sentence {||} 0)\<rparr>)"
proof -
  let ?st1 = "mark_safes {|A, B, C|} st"
  have card: "fcard {|A, B, C|} = 3"
    using assms(1-3) by (simp add: fcard_finsert_if)
  have h1: "heap ?st1 = (heap st)(a := Sentence {||} 0)"
    using assms card by (auto simp: fun_eq_iff Sentence_def minus_safes_def)
  have p1: "trivial_pass st = Inr (?st1, True)"
    using assms card by (simp add: trivial_pass_def trivial_step_def Sentence_def)
  have p2: "trivial_pass ?st1 = Inr (?st1\<lparr>knowledge := []\<rparr>, False)"
    using assms by (simp add: trivial_pass_def trivial_step_def h1 Sentence_def sentence_eq_def)
  have "trivial_update st = Inr (?st1\<lparr>knowledge := []\<rparr>)"
    by (simp add: trivial_update_unfold(1)[OF p1] trivial_update_unfold(2)[OF p2])
  also have "?st1\<lparr>knowledge := []\<rparr> = st\<lparr>safes := safes st |\<union>| {|A, B, C|}, knowledge := [],
                   heap := (heap st)(a := Sentence {||} 0)\<rparr>"
    by (rule ai.equality) (simp_all add: h1)
  finally show ?thesis .
qed







section \<open>Invariants of the engine state\<close>

text \<open>Invariant rules for the two \<open>while change\<close> loops.\<close>

lemma trivial_update_inv:
  assumes "trivial_update st = Inr st'" and "I st"
    and "\<And>s s' c. I s \<Longrightarrow> trivial_pass s = Inr (s', c) \<Longrightarrow> I s'"
  shows "I st'"
  using assms(1,2)
proof (induction st rule: trivial_update.induct)
  case (1 st)
  from "1.prems"(1) obtain st1 ch where p: "trivial_pass st = Inr (st1, ch)"
    by (subst (asm) trivial_update.simps) (auto split: sum.splits)
  have I1: "I st1" using assms(3)[OF "1.prems"(2) p] .
  show ?case
  proof (cases ch)
    case True
    with p "1.prems"(1) have "trivial_update st1 = Inr st'"
      by (simp add: trivial_update_unfold(1))
    with "1.IH"[OF p refl True] I1 show ?thesis by simp
  next
    case False
    with p "1.prems"(1) have "st' = st1"
      by (simp add: trivial_update_unfold(2))
    with I1 show ?thesis by simp
  qed
qed

lemma inference_update_inv_aux:
  assumes "inference_update st = Some r"
    and step: "\<And>s s' c. I s \<Longrightarrow> inference_pass s = Inr (s', c) \<Longrightarrow> I s'"
  shows "I st \<longrightarrow> (\<forall>st'. r = Inr st' \<longrightarrow> I st')"
proof (rule inference_update.raw_induct
         [where P = "\<lambda>st r. I st \<longrightarrow> (\<forall>st'. r = Inr st' \<longrightarrow> I st')", OF _ assms(1)])
  fix inf st r
  assume IH: "\<And>x y. inf x = Some y \<Longrightarrow> I x \<longrightarrow> (\<forall>st'. y = Inr st' \<longrightarrow> I st')"
    and eq: "(case inference_pass st of
                Inl e \<Rightarrow> Some (Inl e)
              | Inr (st', change) \<Rightarrow> if change then inf st' else Some (Inr st')) = Some r"
  show "I st \<longrightarrow> (\<forall>st'. r = Inr st' \<longrightarrow> I st')"
  proof (cases "inference_pass st")
    case (Inl e)
    with eq show ?thesis by auto
  next
    case (Inr p)
    obtain st1 ch where p: "p = (st1, ch)" by (cases p)
    note pass = Inr[unfolded p]
    show ?thesis
    proof (cases ch)
      case True
      with pass eq have "inf st1 = Some r" by simp
      from IH[OF this] step[OF _ pass] show ?thesis by blast
    next
      case False
      with pass eq have "r = Inr st1" by simp
      with step[OF _ pass] show ?thesis by simp
    qed
  qed
qed

lemma inference_update_inv:
  assumes "inference_update st = Some (Inr st')" and "I st"
    and "\<And>s s' c. I s \<Longrightarrow> inference_pass s = Inr (s', c) \<Longrightarrow> I s'"
  shows "I st'"
  using inference_update_inv_aux[OF assms(1), of I] assms(2,3) by blast

text \<open>
  \<open>fresh\<close>: every reference in the knowledge list has been allocated. \<open>kb_clean\<close>: no
  sentence of the knowledge list mentions a classified cell. \<open>inv d\<close> adds, when \<open>d\<close> holds,
  that \<open>mines\<close> and \<open>safes\<close> are disjoint. \<open>snapshot_ok\<close> describes a shallow copy of the
  knowledge list taken earlier: its references are allocated, and those no longer in the
  list point to sentences without cells.
\<close>

definition fresh :: "ai \<Rightarrow> bool" where
  "fresh st \<longleftrightarrow> (\<forall>a\<in>set (knowledge st). a < nxt st)"

definition kb_clean :: "ai \<Rightarrow> bool" where
  "kb_clean st \<longleftrightarrow>
     (\<forall>a\<in>set (knowledge st). cells (heap st a) |\<inter>| (mines st |\<union>| safes st) = {||})"

definition inv :: "bool \<Rightarrow> ai \<Rightarrow> bool" where
  "inv d st \<longleftrightarrow> fresh st \<and> kb_clean st \<and> (d \<longrightarrow> mines st |\<inter>| safes st = {||})"

definition snapshot_ok :: "ref list \<Rightarrow> ai \<Rightarrow> bool" where
  "snapshot_ok as st \<longleftrightarrow> copy_ok as st \<and> (\<forall>a\<in>set as. a < nxt st)"

lemma cells_sentence_mark [simp]:
  "cells (sentence_mark_mine c s) = cells s |-| {|c|}"
  "cells (sentence_mark_safe c s) = cells s |-| {|c|}"
  by (auto simp: sentence_mark_mine_def sentence_mark_safe_def)

lemma inv_mark_mine: "inv d st \<Longrightarrow> (d \<Longrightarrow> c |\<notin>| safes st) \<Longrightarrow> inv d (mark_mine c st)"
  unfolding inv_def fresh_def kb_clean_def by (simp; blast)

lemma inv_mark_safe: "inv d st \<Longrightarrow> (d \<Longrightarrow> c |\<notin>| mines st) \<Longrightarrow> inv d (mark_safe c st)"
  unfolding inv_def fresh_def kb_clean_def by (simp; blast)

lemma inv_mark_mines:
  "inv d st \<Longrightarrow> cs |\<inter>| (mines st |\<union>| safes st) = {||} \<Longrightarrow> inv d (mark_mines cs st)"
  unfolding inv_def fresh_def kb_clean_def by (simp; blast)

lemma inv_mark_safes:
  "inv d st \<Longrightarrow> cs |\<inter>| (mines st |\<union>| safes st) = {||} \<Longrightarrow> inv d (mark_safes cs st)"
  unfolding inv_def fresh_def kb_clean_def by (simp; blast)

lemma inv_append:
  "inv d st \<Longrightarrow> cells new |\<inter>| (mines st |\<union>| safes st) = {||} \<Longrightarrow> inv d (append_sentence new st)"
  unfolding inv_def fresh_def kb_clean_def append_sentence_def by (auto simp: less_Suc_eq)

lemma inv_classify:
  "inv d st \<Longrightarrow> cells new |\<inter>| (mines st |\<union>| safes st) = {||} \<Longrightarrow> inv d (classify new st)"
  by (simp add: classify_def inv_mark_mines inv_mark_safes inv_append)


lemma snapshot_mark_mines: "snapshot_ok as st \<Longrightarrow> snapshot_ok as (mark_mines cs st)"
  unfolding snapshot_ok_def copy_ok_def by (auto split: if_splits)

lemma snapshot_mark_safes: "snapshot_ok as st \<Longrightarrow> snapshot_ok as (mark_safes cs st)"
  unfolding snapshot_ok_def copy_ok_def by (auto split: if_splits)

lemma snapshot_append: "snapshot_ok as st \<Longrightarrow> snapshot_ok as (append_sentence new st)"
  unfolding snapshot_ok_def copy_ok_def append_sentence_def by (auto simp: less_Suc_eq)

lemma snapshot_classify: "snapshot_ok as st \<Longrightarrow> snapshot_ok as (classify new st)"
  by (simp add: classify_def snapshot_mark_mines snapshot_mark_safes snapshot_append)

lemma trivial_step_snapshot:
  assumes "trivial_step a (st, ch) = Inr (st1, ch1)" and "snapshot_ok K st"
  shows "snapshot_ok K st1"
proof (cases "cells (heap st a) = {||}")
  case True
  with assms(1) obtain k where k: "list_remove (heap st) (heap st a) (knowledge st) = Some k"
    and st1: "st1 = st\<lparr>knowledge := k\<rparr>"
    by (auto simp: trivial_step_def split: option.splits)
  from list_remove_Some[OF k] obtain xs b ys where
    ks: "knowledge st = xs @ b # ys" "k = xs @ ys" "sentence_eq (heap st b) (heap st a)"
    by blast
  from ks(3) True have b: "cells (heap st b) = {||}" by (simp add: sentence_eq_def)
  show ?thesis
    using assms(2) b unfolding snapshot_ok_def copy_ok_def st1 by (auto simp: ks)
next
  case False
  with assms(1) have "st1 = mark_mines (cells (heap st a)) st \<or>
      st1 = mark_safes (cells (heap st a)) st \<or> st1 = st"
    by (auto simp: trivial_step_def Let_def split: if_splits)
  with assms(2) show ?thesis
    by (auto simp: snapshot_mark_mines snapshot_mark_safes)
qed

lemma trivial_step_inv:
  assumes "trivial_step a (st, ch) = Inr (st1, ch1)" and "inv d st" and "copy_ok [a] st"
  shows "inv d st1"
proof (cases "cells (heap st a) = {||}")
  case True
  with assms(1) obtain k where k: "list_remove (heap st) (heap st a) (knowledge st) = Some k"
    and st1: "st1 = st\<lparr>knowledge := k\<rparr>"
    by (auto simp: trivial_step_def split: option.splits)
  from list_remove_Some[OF k] obtain xs b ys where
    ks: "knowledge st = xs @ b # ys" "k = xs @ ys"
    by blast
  show ?thesis
    using assms(2) unfolding inv_def fresh_def kb_clean_def st1 by (auto simp: ks)
next
  case False
  with assms(3) have a: "a \<in> set (knowledge st)" by (simp add: copy_ok_def)
  with assms(2) have clean: "cells (heap st a) |\<inter>| (mines st |\<union>| safes st) = {||}"
    by (simp add: inv_def kb_clean_def)
  from False assms(1) have "st1 = mark_mines (cells (heap st a)) st \<or>
      st1 = mark_safes (cells (heap st a)) st \<or> st1 = st"
    by (auto simp: trivial_step_def Let_def split: if_splits)
  with assms(2) clean show ?thesis
    by (auto simp: inv_mark_mines inv_mark_safes)
qed

lemma snapshot_sub: "snapshot_ok K st \<Longrightarrow> a \<in> set K \<Longrightarrow> copy_ok [a] st"
  by (simp add: snapshot_ok_def copy_ok_def)

lemma trivial_step_keeps:
  assumes "trivial_step a (st, ch) = Inr (st1, ch1)"
    and "inv d st" and "snapshot_ok K st" and "a \<in> set K"
  shows "inv d st1 \<and> snapshot_ok K st1"
  using trivial_step_inv[OF assms(1,2) snapshot_sub[OF assms(3,4)]]
    trivial_step_snapshot[OF assms(1,3)] by simp

lemma snapshot_self: "fresh st \<Longrightarrow> snapshot_ok (knowledge st) st"
  by (simp add: snapshot_ok_def copy_ok_def fresh_def)

lemma trivial_pass_snapshot:
  assumes "trivial_pass st = Inr (st', ch)" and "snapshot_ok K st"
  shows "snapshot_ok K st'"
proof -
  have "snapshot_ok K (fst (st', ch))"
    using assms(1)[unfolded trivial_pass_def]
    by (rule for_each_inv[where I = "\<lambda>t. snapshot_ok K (fst t)"])
       (use assms(2) in \<open>auto intro: trivial_step_snapshot\<close>)
  then show ?thesis by simp
qed

lemma trivial_pass_inv:
  assumes "trivial_pass st = Inr (st', ch)" and "inv d st"
  shows "inv d st'"
proof -
  let ?K = "knowledge st"
  have "fresh st" using assms(2) by (simp add: inv_def)
  then have "snapshot_ok ?K st" by (rule snapshot_self)
  with assms(2) have start: "inv d (fst (st, False)) \<and> snapshot_ok ?K (fst (st, False))" by simp
  have "inv d (fst (st', ch)) \<and> snapshot_ok ?K (fst (st', ch))"
    using assms(1)[unfolded trivial_pass_def] start
    by (rule for_each_inv[where I = "\<lambda>t. inv d (fst t) \<and> snapshot_ok ?K (fst t)"])
       (auto dest: trivial_step_keeps)
  then show ?thesis by simp
qed

lemma trivial_update_keeps:
  assumes "trivial_update st = Inr st'" and "inv d st" and "snapshot_ok K st"
  shows "inv d st' \<and> snapshot_ok K st'"
  using assms(1)
  by (rule trivial_update_inv[where I = "\<lambda>s. inv d s \<and> snapshot_ok K s"])
     (use assms(2,3) in \<open>auto intro: trivial_pass_inv trivial_pass_snapshot\<close>)

lemma inference_step_keeps:
  assumes "inference_step a1 a2 (st, ch) = Inr (st1, ch1)"
    and "inv d st" and "snapshot_ok K st" and "a2 \<in> set K"
  shows "inv d st1 \<and> snapshot_ok K st1"
proof (cases "\<not> sentence_eq (heap st a1) (heap st a2) \<and> cells (heap st a1) |\<subseteq>| cells (heap st a2)")
  case False
  with assms(1) have "st1 = st" by (auto simp: inference_step_def Let_def split: if_splits)
  with assms(2,3) show ?thesis by simp
next
  case True
  let ?new = "Sentence (cells (heap st a2) |-| cells (heap st a1)) (count (heap st a2) - count (heap st a1))"
  from True assms(1) have tu: "trivial_update (classify ?new st) = Inr st1"
    by (auto simp: inference_step_def Let_def split: sum.splits)
  have "cells (heap st a2) |\<inter>| (mines st |\<union>| safes st) = {||}"
    using assms(2,3,4) by (auto simp: inv_def kb_clean_def snapshot_ok_def copy_ok_def)
  then have "cells ?new |\<inter>| (mines st |\<union>| safes st) = {||}"
    by (auto simp: Sentence_def)
  with assms(2) have "inv d (classify ?new st)" by (rule inv_classify)
  moreover have "snapshot_ok K (classify ?new st)" using assms(3) by (rule snapshot_classify)
  ultimately show ?thesis by (rule trivial_update_keeps[OF tu])
qed

lemma inference_pass_inv:
  assumes "inference_pass st = Inr (st', ch)" and "inv d st"
  shows "inv d st'"
proof -
  let ?K = "knowledge st"
  let ?I = "\<lambda>t. inv d (fst t) \<and> snapshot_ok ?K (fst t)"
  have "fresh st" using assms(2) by (simp add: inv_def)
  then have "snapshot_ok ?K st" by (rule snapshot_self)
  with assms(2) have start: "?I (st, False)" by simp
  have inner: "?I t'" if "for_each (inference_step a1) ?K t = Inr t'" "?I t" for a1 t t'
    using that
    by (rule for_each_inv[where I = ?I]) (auto dest: inference_step_keeps)
  have "?I (st', ch)"
    using assms(1)[unfolded inference_pass_def Let_def] start
    by (rule for_each_inv[where I = ?I]) (rule inner)
  then show ?thesis by simp
qed

lemma inference_update_keeps:
  "inference_update st = Some (Inr st') \<Longrightarrow> inv d st \<Longrightarrow> inv d st'"
  by (erule inference_update_inv[where I = "inv d"]) (auto intro: inference_pass_inv)


lemma neighbour_step_clean:
  assumes "neighbour_step st p (cs, n) = (cs', n')" and "cs |\<inter>| (mines st |\<union>| safes st) = {||}"
  shows "cs' |\<inter>| (mines st |\<union>| safes st) = {||}"
proof -
  obtain i j where p: "p = (i, j)" by (cases p)
  from assms(1) have "cs' = cs \<or> (cs' = finsert (i, j) cs \<and> (i, j) |\<notin>| mines st \<and> (i, j) |\<notin>| safes st)"
    by (auto simp: neighbour_step_def p split: if_splits)
  with assms(2) show ?thesis by auto
qed

lemma neighbour_fold_clean:
  "fold (neighbour_step st) ps (cs, n) = (cs', n') \<Longrightarrow>
   cs |\<inter>| (mines st |\<union>| safes st) = {||} \<Longrightarrow> cs' |\<inter>| (mines st |\<union>| safes st) = {||}"
proof (induction ps arbitrary: cs n)
  case Nil
  then show ?case by simp
next
  case (Cons p ps)
  obtain cs1 n1 where s: "neighbour_step st p (cs, n) = (cs1, n1)"
    by (cases "neighbour_step st p (cs, n)")
  from Cons.prems(1) s have "fold (neighbour_step st) ps (cs1, n1) = (cs', n')"
    by simp
  then show ?case
    using neighbour_step_clean[OF s Cons.prems(2)] by (rule Cons.IH)
qed

lemma add_knowledge_inv:
  assumes "add_knowledge cell cnt st = Some (Inr st')" and "inv d st"
    and "d \<Longrightarrow> cell |\<notin>| mines st"
  shows "inv d st'"
proof -
  let ?st1 = "st\<lparr>moves_made := finsert cell (moves_made st)\<rparr>"
  let ?st2 = "mark_safe cell ?st1"
  obtain cs n where nb:
    "fold (neighbour_step ?st2) (List.product (range3 (fst cell)) (range3 (snd cell))) ({||}, cnt) = (cs, n)"
    by (cases "fold (neighbour_step ?st2) (List.product (range3 (fst cell)) (range3 (snd cell))) ({||}, cnt)")
  let ?st3 = "classify (Sentence cs n) ?st2"
  from assms(1) obtain st4 where tu: "trivial_update ?st3 = Inr st4"
    and iu: "inference_update st4 = Some (Inr st')"
    unfolding add_knowledge_def Let_def nb
    by (auto split: sum.splits simp del: mark_safe_fields)
  have "inv d ?st1"
    using assms(2) by (simp add: inv_def fresh_def kb_clean_def)
  then have i2: "inv d ?st2"
    using assms(3) by (intro inv_mark_safe) simp_all
  have "cs |\<inter>| (mines ?st2 |\<union>| safes ?st2) = {||}"
    by (rule neighbour_fold_clean[OF nb]) simp
  then have "cells (Sentence cs n) |\<inter>| (mines ?st2 |\<union>| safes ?st2) = {||}"
    by (simp add: Sentence_def)
  with i2 have i3: "inv d ?st3" by (rule inv_classify)
  have "snapshot_ok [] ?st3" by (simp add: snapshot_ok_def copy_ok_def)
  with trivial_update_keeps[OF tu i3] have "inv d st4" by blast
  with iu show ?thesis by (rule inference_update_keeps)
qed

lemma inv_init: "inv d (init h w)"
  by (simp add: inv_def fresh_def kb_clean_def init_def)

lemma trivial_update_keeps_inv: "trivial_update st = Inr st' \<Longrightarrow> inv d st \<Longrightarrow> inv d st'"
  using trivial_update_keeps[of st st' d "[]"] by (simp add: snapshot_ok_def copy_ok_def)

text \<open>The engine states that a driver can reach from a fresh engine through its methods.\<close>

inductive reachable :: "ai \<Rightarrow> bool" where
  r_init: "reachable (init h w)"
| r_mark_mine: "reachable st \<Longrightarrow> reachable (mark_mine c st)"
| r_mark_safe: "reachable st \<Longrightarrow> reachable (mark_safe c st)"
| r_add_knowledge: "reachable st \<Longrightarrow> add_knowledge cell cnt st = Some (Inr st') \<Longrightarrow> reachable st'"
| r_trivial_update: "reachable st \<Longrightarrow> trivial_update st = Inr st' \<Longrightarrow> reachable st'"
| r_inference_update: "reachable st \<Longrightarrow> inference_update st = Some (Inr st') \<Longrightarrow> reachable st'"
| r_safe_move: "reachable st \<Longrightarrow> (r, st') \<in> make_safe_move st \<Longrightarrow> reachable st'"
| r_random_move: "reachable st \<Longrightarrow> (r, st') \<in> make_random_move st \<Longrightarrow> reachable st'"

text \<open>
  The same, for a driver that never marks a known safe cell as a mine, never marks a known
  mine as safe, and never reports an observation for a cell that is a known mine.
\<close>

inductive reachable_guarded :: "ai \<Rightarrow> bool" where
  g_init: "reachable_guarded (init h w)"
| g_mark_mine: "reachable_guarded st \<Longrightarrow> c |\<notin>| safes st \<Longrightarrow> reachable_guarded (mark_mine c st)"
| g_mark_safe: "reachable_guarded st \<Longrightarrow> c |\<notin>| mines st \<Longrightarrow> reachable_guarded (mark_safe c st)"
| g_add_knowledge: "reachable_guarded st \<Longrightarrow> cell |\<notin>| mines st \<Longrightarrow>
     add_knowledge cell cnt st = Some (Inr st') \<Longrightarrow> reachable_guarded st'"
| g_trivial_update: "reachable_guarded st \<Longrightarrow> trivial_update st = Inr st' \<Longrightarrow> reachable_guarded st'"
| g_inference_update: "reachable_guarded st \<Longrightarrow> inference_update st = Some (Inr st') \<Longrightarrow>
     reachable_guarded st'"
| g_safe_move: "reachable_guarded st \<Longrightarrow> (r, st') \<in> make_safe_move st \<Longrightarrow> reachable_guarded st'"
| g_random_move: "reachable_guarded st \<Longrightarrow> (r, st') \<in> make_random_move st \<Longrightarrow> reachable_guarded st'"

lemma move_same:
  "(r, st') \<in> make_safe_move st \<Longrightarrow> st' = st"
  "(r, st') \<in> make_random_move st \<Longrightarrow> st' = st"
  by (auto simp: make_safe_move_def make_random_move_def Let_def split: if_splits)

lemma reachable_inv: "reachable st \<Longrightarrow> inv False st"
proof (induction rule: reachable.induct)
  case (r_init h w)
  show ?case by (rule inv_init)
next
  case (r_add_knowledge st cell cnt st')
  then show ?case by (auto intro: add_knowledge_inv)
qed (auto intro: inv_mark_mine inv_mark_safe trivial_update_keeps_inv inference_update_keeps
          dest: move_same)

lemma reachable_guarded_inv: "reachable_guarded st \<Longrightarrow> inv True st"
proof (induction rule: reachable_guarded.induct)
  case (g_init h w)
  show ?case by (rule inv_init)
next
  case (g_add_knowledge st cell cnt st')
  then show ?case by (auto intro: add_knowledge_inv)
qed (auto intro: inv_mark_mine inv_mark_safe trivial_update_keeps_inv inference_update_keeps
          dest: move_same)

section \<open>Trivial resolution always returns\<close>

lemma list_remove_prefix:
  "sentence_eq (h a) v \<Longrightarrow> \<exists>P'. list_remove h v (P @ a # as) = Some (P' @ as)"
proof (induction P)
  case Nil
  then show ?case by (intro exI[of _ "[]"]) simp
next
  case (Cons p P)
  from Cons.IH[OF Cons.prems] obtain P' where P': "list_remove h v (P @ a # as) = Some (P' @ as)"
    by blast
  show ?case
  proof (cases "sentence_eq (h p) v")
    case True
    then show ?thesis by (intro exI[of _ "P @ [a]"]) simp
  next
    case False
    with P' show ?thesis by (intro exI[of _ "p # P'"]) simp
  qed
qed

lemma list_remove_skip:
  "(\<And>p. p \<in> set P \<Longrightarrow> \<not> sentence_eq (h p) v) \<Longrightarrow> sentence_eq (h a) v \<Longrightarrow>
   list_remove h v (P @ a # as) = Some (P @ as)"
  by (induction P) auto

lemma sentence_eq_refl [simp]: "sentence_eq s s"
  by (simp add: sentence_eq_def)

lemma trivial_step_returns:
  assumes "knowledge s = P @ a # as"
  shows "\<exists>s' ch' P'. trivial_step a (s, ch) = Inr (s', ch') \<and> knowledge s' = P' @ as"
proof (cases "cells (heap s a) = {||}")
  case True
  from list_remove_prefix[of "heap s" a "heap s a" P as] obtain P' where
    "list_remove (heap s) (heap s a) (P @ a # as) = Some (P' @ as)"
    by auto
  with True assms show ?thesis
    by (simp add: trivial_step_def)
next
  case False
  have "knowledge s = (P @ [a]) @ as" using assms by simp
  with False show ?thesis
    unfolding trivial_step_def Let_def by (auto simp del: append_assoc)
qed

lemma trivial_loop_returns:
  "knowledge s = P @ as \<Longrightarrow> \<exists>t. for_each trivial_step as (s, ch) = Inr t"
proof (induction as arbitrary: s ch P)
  case Nil
  show ?case by simp
next
  case (Cons a as)
  from trivial_step_returns[OF Cons.prems, of ch] obtain s' ch' P' where
    st: "trivial_step a (s, ch) = Inr (s', ch')" "knowledge s' = P' @ as"
    by blast
  from Cons.IH[OF st(2), of ch'] st(1) show ?case by simp
qed

lemma trivial_pass_returns: "\<exists>t. trivial_pass st = Inr t"
  unfolding trivial_pass_def by (rule trivial_loop_returns[of st "[]"]) simp

lemma trivial_update_returns: "\<exists>st'. trivial_update st = Inr st'"
proof (induction st rule: trivial_update.induct)
  case (1 st)
  from trivial_pass_returns[of st] obtain st1 ch where p: "trivial_pass st = Inr (st1, ch)"
    by (metis surj_pair)
  show ?case
  proof (cases ch)
    case True
    from "1.IH"[OF p refl True] obtain st' where "trivial_update st1 = Inr st'" by blast
    with p True show ?thesis by (auto simp: trivial_update_unfold(1))
  next
    case False
    with p show ?thesis by (auto simp: trivial_update_unfold(2))
  qed
qed

section \<open>What trivial resolution leaves behind\<close>

definition nontrivial :: "sentence \<Rightarrow> bool" where
  "nontrivial s \<longleftrightarrow> cells s \<noteq> {||} \<and> count s \<noteq> int (fcard (cells s)) \<and> count s \<noteq> 0"

lemma settled_nontrivial: "settled st \<longleftrightarrow> (\<forall>a\<in>set (knowledge st). nontrivial (heap st a))"
  by (simp add: settled_def nontrivial_def)

lemma trivial_step_flag: "trivial_step a (s, True) = Inr (s', ch') \<Longrightarrow> ch'"
  by (auto simp: trivial_step_def Let_def split: if_splits option.splits)

lemma trivial_loop_flag: "for_each trivial_step as (s, True) = Inr (s', ch') \<Longrightarrow> ch'"
proof (induction as arbitrary: s)
  case Nil
  then show ?case by simp
next
  case (Cons a as)
  from Cons.prems obtain s1 ch1 where st: "trivial_step a (s, True) = Inr (s1, ch1)"
    and rest: "for_each trivial_step as (s1, ch1) = Inr (s', ch')"
    by (auto split: sum.splits)
  from trivial_step_flag[OF st] rest show ?case by (auto intro: Cons.IH)
qed

lemma trivial_step_quiet:
  assumes "trivial_step a (s, False) = Inr (s', False)" and "knowledge s = P @ a # as"
    and "\<And>p. p \<in> set P \<Longrightarrow> nontrivial (heap s p)"
  shows "heap s' = heap s \<and> (\<exists>P'. knowledge s' = P' @ as \<and> (\<forall>p\<in>set P'. nontrivial (heap s p)))"
proof (cases "cells (heap s a) = {||}")
  case True
  have "list_remove (heap s) (heap s a) (P @ a # as) = Some (P @ as)"
  proof (rule list_remove_skip)
    fix p assume "p \<in> set P"
    from assms(3)[OF this] True show "\<not> sentence_eq (heap s p) (heap s a)"
      by (auto simp: nontrivial_def sentence_eq_def)
  qed simp
  with True assms(1,2) have "s' = s\<lparr>knowledge := P @ as\<rparr>"
    by (simp add: trivial_step_def)
  with assms(3) show ?thesis by auto
next
  case False
  with assms(1) have "nontrivial (heap s a)" and "s' = s"
    by (auto simp: trivial_step_def Let_def nontrivial_def split: if_splits)
  moreover have "knowledge s = (P @ [a]) @ as" using assms(2) by simp
  ultimately show ?thesis
    using assms(3) by (intro conjI exI[of _ "P @ [a]"]) auto
qed

lemma trivial_loop_quiet:
  "for_each trivial_step as (s, ch) = Inr (s', False) \<Longrightarrow> knowledge s = P @ as \<Longrightarrow>
   (\<And>p. p \<in> set P \<Longrightarrow> nontrivial (heap s p)) \<Longrightarrow> settled s'"
proof (induction as arbitrary: s ch P)
  case Nil
  then show ?case by (simp add: settled_nontrivial)
next
  case (Cons a as)
  from Cons.prems(1) obtain s1 ch1 where st: "trivial_step a (s, ch) = Inr (s1, ch1)"
    and rest: "for_each trivial_step as (s1, ch1) = Inr (s', False)"
    by (auto split: sum.splits)
  have ch1: "\<not> ch1"
    using trivial_loop_flag[of as s1 s' False] rest by (cases ch1) auto
  have ch: "\<not> ch"
    using trivial_step_flag[of a s s1 ch1] st ch1 by (cases ch) auto
  from st ch ch1 have st': "trivial_step a (s, False) = Inr (s1, False)" by simp
  from trivial_step_quiet[OF st' Cons.prems(2) Cons.prems(3)] obtain P' where
    h: "heap s1 = heap s" and k: "knowledge s1 = P' @ as" and n: "\<forall>p\<in>set P'. nontrivial (heap s p)"
    by blast
  show ?case
    by (rule Cons.IH[OF rest k]) (use n h in auto)
qed

lemma trivial_pass_quiet: "trivial_pass st = Inr (st', False) \<Longrightarrow> settled st'"
  unfolding trivial_pass_def by (erule trivial_loop_quiet[where P = "[]"]) simp_all

lemma trivial_update_settles: "trivial_update st = Inr st' \<Longrightarrow> settled st'"
proof (induction st rule: trivial_update.induct)
  case (1 st)
  from "1.prems" obtain st1 ch where p: "trivial_pass st = Inr (st1, ch)"
    by (subst (asm) trivial_update.simps) (auto split: sum.splits)
  show ?case
  proof (cases ch)
    case True
    with p "1.prems" have "trivial_update st1 = Inr st'"
      by (simp add: trivial_update_unfold(1))
    with "1.IH"[OF p refl True] show ?thesis by simp
  next
    case False
    with p "1.prems" have "st' = st1"
      by (simp add: trivial_update_unfold(2))
    with p False show ?thesis by (auto intro: trivial_pass_quiet)
  qed
qed

section \<open>Knowledge bases that are true of a mine placement\<close>

text \<open>
  \<open>consistent T st\<close>: every sentence of the knowledge base is true when exactly the cells of
  \<open>T\<close> are mines.
\<close>

definition consistent :: "cell fset \<Rightarrow> ai \<Rightarrow> bool" where
  "consistent T st \<longleftrightarrow>
     (\<forall>a\<in>set (knowledge st). count (heap st a) = int (fcard (cells (heap st a) |\<inter>| T)))"

text \<open>
  \<open>tracks T C a s\<close>: of the cells \<open>C\<close> that sentence \<open>a\<close> had at the start, each one is still
  in the sentence, or is a mine of \<open>T\<close> and in \<open>mines\<close>, or is no mine of \<open>T\<close> and in \<open>safes\<close>.
\<close>

definition tracks :: "cell fset \<Rightarrow> cell fset \<Rightarrow> ref \<Rightarrow> ai \<Rightarrow> bool" where
  "tracks T C a s \<longleftrightarrow>
     consistent T s \<and> cells (heap s a) |\<subseteq>| C \<and>
     (\<forall>c. c |\<in>| C \<longrightarrow> c |\<in>| cells (heap s a) \<or> (c |\<in>| T \<and> c |\<in>| mines s) \<or>
                        (c |\<notin>| T \<and> c |\<in>| safes s))"

lemma fcard_inter_full: "fcard (A |\<inter>| T) = fcard A \<Longrightarrow> A |\<subseteq>| T"
proof -
  assume "fcard (A |\<inter>| T) = fcard A"
  then have "A |\<inter>| T = A"
    by (intro fcard_seteq) auto
  then show ?thesis by auto
qed

lemma fcard_diff_inter:
  assumes "cs |\<subseteq>| T"
  shows "int (fcard ((A |-| cs) |\<inter>| T)) = int (fcard (A |\<inter>| T)) - int (fcard (A |\<inter>| cs))"
proof -
  have "A |\<inter>| T = ((A |-| cs) |\<inter>| T) |\<union>| (A |\<inter>| cs)"
    using assms by auto
  moreover have "((A |-| cs) |\<inter>| T) |\<inter>| (A |\<inter>| cs) = {||}"
    by auto
  ultimately have "fcard (A |\<inter>| T) = fcard ((A |-| cs) |\<inter>| T) + fcard (A |\<inter>| cs)"
    by (metis fcard_funion_disjoint)
  then show ?thesis by simp
qed

lemma tracks_mark_mines:
  assumes "tracks T C a s" and "cs |\<subseteq>| T"
  shows "tracks T C a (mark_mines cs s)"
proof -
  have "consistent T (mark_mines cs s)"
    using assms unfolding tracks_def consistent_def
    by (simp add: fcard_diff_inter)
  moreover have "cells (heap (mark_mines cs s) a) |\<subseteq>| C"
    using assms(1) unfolding tracks_def by auto
  moreover have "c |\<in>| cells (heap (mark_mines cs s) a) \<or> (c |\<in>| T \<and> c |\<in>| mines (mark_mines cs s)) \<or>
      (c |\<notin>| T \<and> c |\<in>| safes (mark_mines cs s))" if "c |\<in>| C" for c
  proof -
    from assms(1) that have "c |\<in>| cells (heap s a) \<or> (c |\<in>| T \<and> c |\<in>| mines s) \<or>
        (c |\<notin>| T \<and> c |\<in>| safes s)"
      unfolding tracks_def by blast
    with assms(2) show ?thesis by (cases "c |\<in>| cs") auto
  qed
  ultimately show ?thesis unfolding tracks_def by blast
qed

lemma tracks_mark_safes:
  assumes "tracks T C a s" and "cs |\<inter>| T = {||}"
  shows "tracks T C a (mark_safes cs s)"
proof -
  have "(A |-| cs) |\<inter>| T = A |\<inter>| T" for A
    using assms(2) by auto
  then have "consistent T (mark_safes cs s)"
    using assms(1) unfolding tracks_def consistent_def by simp
  moreover have "cells (heap (mark_safes cs s) a) |\<subseteq>| C"
    using assms(1) unfolding tracks_def by auto
  moreover have "c |\<in>| cells (heap (mark_safes cs s) a) \<or> (c |\<in>| T \<and> c |\<in>| mines (mark_safes cs s)) \<or>
      (c |\<notin>| T \<and> c |\<in>| safes (mark_safes cs s))" if "c |\<in>| C" for c
  proof -
    from assms(1) that have "c |\<in>| cells (heap s a) \<or> (c |\<in>| T \<and> c |\<in>| mines s) \<or>
        (c |\<notin>| T \<and> c |\<in>| safes s)"
      unfolding tracks_def by blast
    with assms(2) show ?thesis by (cases "c |\<in>| cs") auto
  qed
  ultimately show ?thesis unfolding tracks_def by blast
qed

lemma trivial_step_copy_ok:
  assumes "trivial_step a (st, ch) = Inr (st1, ch1)" and "copy_ok K st"
  shows "copy_ok K st1"
proof (cases "cells (heap st a) = {||}")
  case True
  with assms(1) obtain k where k: "list_remove (heap st) (heap st a) (knowledge st) = Some k"
    and st1: "st1 = st\<lparr>knowledge := k\<rparr>"
    by (auto simp: trivial_step_def split: option.splits)
  from list_remove_Some[OF k] obtain xs b ys where
    ks: "knowledge st = xs @ b # ys" "k = xs @ ys" "sentence_eq (heap st b) (heap st a)"
    by blast
  from ks(3) True have b: "cells (heap st b) = {||}" by (simp add: sentence_eq_def)
  show ?thesis
    using assms(2) b unfolding copy_ok_def st1 by (auto simp: ks)
next
  case False
  with assms(1) have "st1 = mark_mines (cells (heap st a)) st \<or>
      st1 = mark_safes (cells (heap st a)) st \<or> st1 = st"
    by (auto simp: trivial_step_def Let_def split: if_splits)
  with assms(2) show ?thesis
    unfolding copy_ok_def by (auto split: if_splits)
qed

lemma trivial_step_tracks:
  assumes "trivial_step b (s, ch) = Inr (s1, ch1)" and "tracks T C a s" and "copy_ok [b] s"
  shows "tracks T C a s1"
proof (cases "cells (heap s b) = {||}")
  case True
  with assms(1) obtain k where k: "list_remove (heap s) (heap s b) (knowledge s) = Some k"
    and s1: "s1 = s\<lparr>knowledge := k\<rparr>"
    by (auto simp: trivial_step_def split: option.splits)
  from list_remove_Some[OF k] obtain xs c ys where "knowledge s = xs @ c # ys" "k = xs @ ys"
    by blast
  with assms(2) show ?thesis
    unfolding tracks_def consistent_def s1 by auto
next
  case False
  with assms(3) have b: "b \<in> set (knowledge s)" by (simp add: copy_ok_def)
  with assms(2) have cnt: "count (heap s b) = int (fcard (cells (heap s b) |\<inter>| T))"
    by (simp add: tracks_def consistent_def)
  consider (mine) "count (heap s b) = int (fcard (cells (heap s b)))"
      "s1 = mark_mines (cells (heap s b)) s"
    | (safe) "count (heap s b) = 0" "s1 = mark_safes (cells (heap s b)) s"
    | (keep) "s1 = s"
    using False assms(1) by (auto simp: trivial_step_def Let_def split: if_splits)
  then show ?thesis
  proof cases
    case mine
    with cnt have "cells (heap s b) |\<subseteq>| T" by (intro fcard_inter_full) simp
    with assms(2) mine(2) show ?thesis by (simp add: tracks_mark_mines)
  next
    case safe
    with cnt have "cells (heap s b) |\<inter>| T = {||}" by simp
    with assms(2) safe(2) show ?thesis by (simp add: tracks_mark_safes)
  next
    case keep
    with assms(2) show ?thesis by simp
  qed
qed

lemma trivial_pass_tracks:
  assumes "trivial_pass st = Inr (st', ch)" and "tracks T C a st" and "copy_ok [a] st"
  shows "tracks T C a st' \<and> copy_ok [a] st'"
proof -
  let ?K = "knowledge st"
  let ?I = "\<lambda>t. tracks T C a (fst t) \<and> copy_ok [a] (fst t) \<and> copy_ok ?K (fst t)"
  have start: "?I (st, False)"
    using assms(2,3) by (simp add: copy_ok_def)
  have "?I (st', ch)"
    using assms(1)[unfolded trivial_pass_def] start
  proof (rule for_each_inv[where I = ?I])
    fix b and t t' :: "ai \<times> bool"
    assume b: "b \<in> set ?K" and I: "?I t" and st: "trivial_step b t = Inr t'"
    obtain s c s1 c1 where t: "t = (s, c)" "t' = (s1, c1)" by (cases t, cases t')
    from I b have "copy_ok [b] s" by (simp add: t copy_ok_def)
    with st I show "?I t'"
      unfolding t by (auto intro: trivial_step_tracks trivial_step_copy_ok)
  qed
  then show ?thesis by simp
qed

lemma trivial_update_tracks:
  assumes "trivial_update st = Inr st'" and "tracks T C a st" and "copy_ok [a] st"
  shows "tracks T C a st' \<and> copy_ok [a] st'"
  using assms(1)
  by (rule trivial_update_inv[where I = "\<lambda>s. tracks T C a s \<and> copy_ok [a] s"])
     (use assms(2,3) in \<open>auto dest: trivial_pass_tracks\<close>)

lemma trivial_update_resolves:
  assumes "consistent T st" and "a \<in> set (knowledge st)"
    and "cells (heap st a) |\<subseteq>| T \<or> cells (heap st a) |\<inter>| T = {||}"
  shows "\<exists>st'. trivial_update st = Inr st' \<and> a \<notin> set (knowledge st') \<and> cells (heap st' a) = {||} \<and>
           (cells (heap st a) |\<subseteq>| T \<longrightarrow> cells (heap st a) |\<subseteq>| mines st') \<and>
           (cells (heap st a) |\<inter>| T = {||} \<longrightarrow> cells (heap st a) |\<subseteq>| safes st')"
proof -
  let ?C = "cells (heap st a)"
  from trivial_update_returns obtain st' where run: "trivial_update st = Inr st'" by blast
  have "tracks T ?C a st"
    using assms(1) by (simp add: tracks_def)
  moreover have "copy_ok [a] st"
    using assms(2) by (simp add: copy_ok_def)
  ultimately have tr: "tracks T ?C a st'" and co: "copy_ok [a] st'"
    using trivial_update_tracks[OF run] by blast+
  have settled: "settled st'" by (rule trivial_update_settles[OF run])
  have out: "a \<notin> set (knowledge st')"
  proof
    assume a: "a \<in> set (knowledge st')"
    with settled have nt: "nontrivial (heap st' a)" by (simp add: settled_nontrivial)
    from tr a have cnt: "count (heap st' a) = int (fcard (cells (heap st' a) |\<inter>| T))"
      and sub: "cells (heap st' a) |\<subseteq>| ?C"
      by (simp_all add: tracks_def consistent_def)
    from assms(3) show False
    proof
      assume "?C |\<subseteq>| T"
      with sub have "cells (heap st' a) |\<inter>| T = cells (heap st' a)" by auto
      with cnt nt show False by (simp add: nontrivial_def)
    next
      assume "?C |\<inter>| T = {||}"
      with sub have "cells (heap st' a) |\<inter>| T = {||}" by auto
      with cnt nt show False by (simp add: nontrivial_def)
    qed
  qed
  with co have empty: "cells (heap st' a) = {||}" by (simp add: copy_ok_def)
  have "?C |\<subseteq>| mines st'" if "?C |\<subseteq>| T"
    using tr that empty unfolding tracks_def by auto
  moreover have "?C |\<subseteq>| safes st'" if "?C |\<inter>| T = {||}"
    using tr that empty unfolding tracks_def by auto
  ultimately show ?thesis using run out empty by blast
qed

section \<open>A knowledge base on which subset inference never stops\<close>

text \<open>
  A loop rule with progress: every step keeps \<open>I\<close> and returns normally, a flag \<open>F\<close> once set
  stays set, and a step on an element with \<open>G\<close> sets it.
\<close>

lemma for_each_progress:
  assumes "I s"
    and "\<And>x t. x \<in> set xs \<Longrightarrow> I t \<Longrightarrow>
           \<exists>t'. f x t = Inr t' \<and> I t' \<and> (F t \<longrightarrow> F t') \<and> (G x \<longrightarrow> F t')"
  shows "\<exists>s'. for_each f xs s = Inr s' \<and> I s' \<and> (F s \<or> (\<exists>x\<in>set xs. G x) \<longrightarrow> F s')"
  using assms
proof (induction xs arbitrary: s)
  case Nil
  then show ?case by simp
next
  case (Cons x xs)
  from Cons.prems(2)[of x s] Cons.prems(1) obtain t where
    t: "f x s = Inr t" "I t" "F s \<longrightarrow> F t" "G x \<longrightarrow> F t"
    by auto
  have "\<exists>s'. for_each f xs t = Inr s' \<and> I s' \<and> (F t \<or> (\<exists>x\<in>set xs. G x) \<longrightarrow> F s')"
    by (rule Cons.IH[OF t(2)]) (use Cons.prems(2) in auto)
  then obtain s' where "for_each f xs t = Inr s'" "I s'" "F t \<or> (\<exists>x\<in>set xs. G x) \<longrightarrow> F s'"
    by blast
  with t show ?case by auto
qed

text \<open>
  Three sentences over the cells of a 3 by 3 board: \<open>SY\<close> is a subset of \<open>SX\<close>, the difference
  is \<open>SZ\<close>, and the difference of \<open>SX\<close> and \<open>SZ\<close> is \<open>SY\<close> again. None of the three is
  resolved by \<open>trivial_update\<close>.
\<close>

definition X7 :: "cell fset" where
  "X7 = {|(2, 2), (2, 1), (2, 0), (1, 2), (1, 0), (0, 2), (0, 0)|}"

definition Y4 :: "cell fset" where
  "Y4 = {|(1, 2), (1, 0), (0, 2), (0, 0)|}"

definition Z3 :: "cell fset" where
  "Z3 = {|(2, 2), (2, 1), (2, 0)|}"

definition SX :: sentence where "SX = Sentence X7 2"
definition SY :: sentence where "SY = Sentence Y4 1"
definition SZ :: sentence where "SZ = Sentence Z3 1"

lemma cell_sets:
  "X7 |-| Y4 = Z3" "X7 |-| Z3 = Y4" "Y4 |\<subseteq>| X7" "Z3 |\<subseteq>| X7"
  "\<not> X7 |\<subseteq>| Y4" "\<not> X7 |\<subseteq>| Z3" "\<not> Y4 |\<subseteq>| Z3" "\<not> Z3 |\<subseteq>| Y4"
  by (auto simp: X7_def Y4_def Z3_def)

lemma cell_cards: "fcard X7 = 7" "fcard Y4 = 4" "fcard Z3 = 3"
  by (simp_all add: X7_def Y4_def Z3_def fcard_finsert_if)

lemma cells_neq: "Y4 \<noteq> Z3" "Z3 \<noteq> Y4" "X7 \<noteq> {||}" "Y4 \<noteq> {||}" "Z3 \<noteq> {||}"
  using cell_cards by (auto simp: fcard_fempty)

text \<open>Every sentence of the knowledge list is one of the three.\<close>

definition three :: "ai \<Rightarrow> bool" where
  "three s \<longleftrightarrow> (\<forall>a\<in>set (knowledge s). heap s a = SX \<or> heap s a = SY \<or> heap s a = SZ)"

text \<open>
  The invariant of one pass started in \<open>st\<close>: sentences are only appended, and the sentences
  of the snapshot are not changed.
\<close>

definition loop_inv :: "ai \<Rightarrow> ai \<Rightarrow> bool" where
  "loop_inv st s \<longleftrightarrow>
     fresh s \<and> three s \<and> set (knowledge st) \<subseteq> set (knowledge s) \<and>
     (\<forall>a\<in>set (knowledge st). heap s a = heap st a)"

text \<open>
  \<open>stuck st\<close>: the knowledge base holds only these three sentences, and both \<open>SX\<close> and
  \<open>SY\<close> are among them.
\<close>

definition stuck :: "ai \<Rightarrow> bool" where
  "stuck st \<longleftrightarrow>
     fresh st \<and> three st \<and>
     (\<exists>a\<in>set (knowledge st). heap st a = SX) \<and> (\<exists>a\<in>set (knowledge st). heap st a = SY)"

lemma three_settled: "three s \<Longrightarrow> settled s"
  unfolding three_def settled_def
  by (auto simp: SX_def SY_def SZ_def Sentence_def cell_cards cells_neq)

lemma loop_inv_append:
  assumes "loop_inv st s" and "v = SY \<or> v = SZ"
  shows "loop_inv st (append_sentence v s)"
  using assms unfolding loop_inv_def fresh_def three_def append_sentence_def
  by (auto simp: less_Suc_eq)

lemma three_append: "three s \<Longrightarrow> fresh s \<Longrightarrow> v = SY \<or> v = SZ \<Longrightarrow> three (append_sentence v s)"
  unfolding fresh_def three_def append_sentence_def by auto

lemma classify_three: "v = SY \<or> v = SZ \<Longrightarrow> classify v s = append_sentence v s"
  by (auto simp: classify_def SY_def SZ_def Sentence_def cell_cards)

lemma inference_step_derive:
  assumes "\<not> sentence_eq (heap s a1) (heap s a2)"
    and "cells (heap s a1) |\<subseteq>| cells (heap s a2)"
    and "trivial_update (classify (Sentence (cells (heap s a2) |-| cells (heap s a1))
                                            (count (heap s a2) - count (heap s a1))) s) = Inr t"
  shows "inference_step a1 a2 (s, ch) = Inr (t, True)"
  using assms by (simp add: inference_step_def Let_def)

lemma derive_step:
  assumes "heap s a1 = SY \<and> heap s a2 = SX \<or> heap s a1 = SZ \<and> heap s a2 = SX"
    and "three s" and "fresh s"
  shows "\<exists>v. (v = SY \<or> v = SZ) \<and> inference_step a1 a2 (s, ch) = Inr (append_sentence v s, True)"
proof -
  have stay: "trivial_update (classify v s) = Inr (append_sentence v s)" if "v = SY \<or> v = SZ" for v
  proof -
    have "settled (append_sentence v s)"
      by (intro three_settled three_append assms that)
    then show ?thesis
      by (simp add: classify_three[OF that] trivial_update_settled)
  qed
  from assms(1) show ?thesis
  proof
    assume h: "heap s a1 = SY \<and> heap s a2 = SX"
    have "inference_step a1 a2 (s, ch) = Inr (append_sentence SZ s, True)"
    proof (rule inference_step_derive)
      show "\<not> sentence_eq (heap s a1) (heap s a2)"
        using h cell_sets(5) by (auto simp: sentence_eq_def SX_def SY_def Sentence_def)
      show "cells (heap s a1) |\<subseteq>| cells (heap s a2)"
        using h cell_sets(3) by (simp add: SX_def SY_def Sentence_def)
      have "Sentence (cells (heap s a2) |-| cells (heap s a1)) (count (heap s a2) - count (heap s a1)) = SZ"
        using h by (simp add: SX_def SY_def SZ_def Sentence_def cell_sets(1))
      then show "trivial_update (classify (Sentence (cells (heap s a2) |-| cells (heap s a1))
                   (count (heap s a2) - count (heap s a1))) s) = Inr (append_sentence SZ s)"
        by (simp only: stay[of SZ, OF disjI2[OF refl]])
    qed
    then show ?thesis by blast
  next
    assume h: "heap s a1 = SZ \<and> heap s a2 = SX"
    have "inference_step a1 a2 (s, ch) = Inr (append_sentence SY s, True)"
    proof (rule inference_step_derive)
      show "\<not> sentence_eq (heap s a1) (heap s a2)"
        using h cell_sets(6) by (auto simp: sentence_eq_def SX_def SZ_def Sentence_def)
      show "cells (heap s a1) |\<subseteq>| cells (heap s a2)"
        using h cell_sets(4) by (simp add: SX_def SZ_def Sentence_def)
      have "Sentence (cells (heap s a2) |-| cells (heap s a1)) (count (heap s a2) - count (heap s a1)) = SY"
        using h by (simp add: SX_def SY_def SZ_def Sentence_def cell_sets(2))
      then show "trivial_update (classify (Sentence (cells (heap s a2) |-| cells (heap s a1))
                   (count (heap s a2) - count (heap s a1))) s) = Inr (append_sentence SY s)"
        by (simp only: stay[of SY, OF disjI1[OF refl]])
    qed
    then show ?thesis by blast
  qed
qed

lemma skip_step:
  assumes "heap s a1 = SX \<or> heap s a2 \<noteq> SX" and "three s"
    and "a1 \<in> set (knowledge s)" and "a2 \<in> set (knowledge s)"
  shows "inference_step a1 a2 (s, ch) = Inr (s, ch)"
proof -
  from assms(2,3,4) have "heap s a1 = SX \<or> heap s a1 = SY \<or> heap s a1 = SZ"
    "heap s a2 = SX \<or> heap s a2 = SY \<or> heap s a2 = SZ"
    by (auto simp: three_def)
  with assms(1) have "sentence_eq (heap s a1) (heap s a2) \<or> \<not> cells (heap s a1) |\<subseteq>| cells (heap s a2)"
    by (auto simp: SX_def SY_def SZ_def Sentence_def cell_sets sentence_eq_def)
  then show ?thesis
    by (auto simp: inference_step_def Let_def)
qed


lemma stuck_step:
  assumes "loop_inv st s" and "a1 \<in> set (knowledge st)" and "a2 \<in> set (knowledge st)"
  shows "\<exists>t'. inference_step a1 a2 (s, ch) = Inr t' \<and> loop_inv st (fst t') \<and>
              (ch \<longrightarrow> snd t') \<and> (heap st a1 = SY \<and> heap st a2 = SX \<longrightarrow> snd t')"
proof -
  from assms have in_s: "a1 \<in> set (knowledge s)" "a2 \<in> set (knowledge s)"
    and same: "heap s a1 = heap st a1" "heap s a2 = heap st a2"
    and three: "three s" and fresh: "fresh s"
    by (auto simp: loop_inv_def)
  from three in_s(1) have v1: "heap s a1 = SX \<or> heap s a1 = SY \<or> heap s a1 = SZ"
    by (simp add: three_def)
  show ?thesis
  proof (cases "(heap s a1 = SY \<or> heap s a1 = SZ) \<and> heap s a2 = SX")
    case True
    then have "heap s a1 = SY \<and> heap s a2 = SX \<or> heap s a1 = SZ \<and> heap s a2 = SX"
      by blast
    from derive_step[OF this three fresh, of ch] obtain v where
      v: "v = SY \<or> v = SZ" "inference_step a1 a2 (s, ch) = Inr (append_sentence v s, True)"
      by blast
    from loop_inv_append[OF assms(1) v(1)] v(2) show ?thesis by simp
  next
    case False
    with v1 have "heap s a1 = SX \<or> heap s a2 \<noteq> SX" by blast
    from skip_step[OF this three in_s, of ch] have skip: "inference_step a1 a2 (s, ch) = Inr (s, ch)" .
    have "\<not> (heap st a1 = SY \<and> heap st a2 = SX)"
      using False same by auto
    with skip assms(1) show ?thesis by auto
  qed
qed

text \<open>
  A pass over a stuck knowledge base visits the pair \<open>(SY, SX)\<close>, derives \<open>SZ\<close>, appends it and
  sets \<open>change\<close>; the knowledge base after the pass is stuck again.
\<close>

lemma stuck_pass:
  assumes "stuck st"
  shows "\<exists>st'. inference_pass st = Inr (st', True) \<and> stuck st'"
proof -
  let ?K = "knowledge st"
  let ?I = "\<lambda>t. loop_inv st (fst t)"
  from assms obtain ax ay where ax: "ax \<in> set ?K" "heap st ax = SX"
    and ay: "ay \<in> set ?K" "heap st ay = SY"
    by (auto simp: stuck_def)
  have start: "?I (st, False)"
    using assms by (simp add: loop_inv_def stuck_def)
  have inner: "\<exists>t'. for_each (inference_step a1) ?K t = Inr t' \<and> ?I t' \<and>
                  (snd t \<longrightarrow> snd t') \<and> (heap st a1 = SY \<longrightarrow> snd t')"
    if "a1 \<in> set ?K" "?I t" for a1 and t :: "ai \<times> bool"
  proof -
    have "\<exists>t'. for_each (inference_step a1) ?K t = Inr t' \<and> ?I t' \<and>
            (snd t \<or> (\<exists>a2\<in>set ?K. heap st a1 = SY \<and> heap st a2 = SX) \<longrightarrow> snd t')"
    proof (rule for_each_progress[where I = ?I and F = snd
            and G = "\<lambda>a2. heap st a1 = SY \<and> heap st a2 = SX"])
      show "?I t" by (rule that(2))
    next
      fix a2 and u :: "ai \<times> bool" assume "a2 \<in> set ?K" "?I u"
      with stuck_step[of st "fst u" a1 a2 "snd u"] that(1)
      show "\<exists>t'. inference_step a1 a2 u = Inr t' \<and> ?I t' \<and> (snd u \<longrightarrow> snd t') \<and>
                 (heap st a1 = SY \<and> heap st a2 = SX \<longrightarrow> snd t')"
        by simp
    qed
    with ax show ?thesis by blast
  qed
  have "\<exists>t'. for_each (\<lambda>a1. for_each (inference_step a1) ?K) ?K (st, False) = Inr t' \<and> ?I t' \<and>
          (snd (st, False) \<or> (\<exists>a1\<in>set ?K. heap st a1 = SY) \<longrightarrow> snd t')"
    by (rule for_each_progress[where I = ?I and F = snd and G = "\<lambda>a1. heap st a1 = SY"])
       (use start inner in auto)
  with ay obtain st' where pass: "inference_pass st = Inr (st', True)" and inv: "loop_inv st st'"
    by (auto simp: inference_pass_def Let_def)
  from inv ax ay have "stuck st'"
    unfolding loop_inv_def stuck_def by (metis subsetD)
  with pass show ?thesis by blast
qed

lemma stuck_never_returns:
  assumes "inference_update st = Some r"
  shows "\<not> stuck st"
proof (rule inference_update.raw_induct[where P = "\<lambda>st r. \<not> stuck st", OF _ assms])
  fix inf st r
  assume IH: "\<And>x y. inf x = Some y \<Longrightarrow> \<not> stuck x"
    and eq: "(case inference_pass st of
                Inl e \<Rightarrow> Some (Inl e)
              | Inr (st', change) \<Rightarrow> if change then inf st' else Some (Inr st')) = Some r"
  show "\<not> stuck st"
  proof
    assume "stuck st"
    from stuck_pass[OF this] obtain st' where "inference_pass st = Inr (st', True)" "stuck st'"
      by blast
    with eq IH show False by auto
  qed
qed

lemma stuck_diverges: "stuck st \<Longrightarrow> inference_update st = None"
  using stuck_never_returns by (cases "inference_update st") auto


section \<open>The game board\<close>

text \<open>
  The class \<open>Minesweeper\<close> with its fields \<open>height\<close>, \<open>width\<close>, \<open>mines\<close>, \<open>board\<close> and
  \<open>mines_found\<close>, and its method \<open>nearby_mines\<close>: the two nested \<open>range\<close> loops around the
  cell, skipping the cell itself and the cells off the board.
\<close>

record minesweeper =
  game_height :: int
  game_width :: int
  game_mines :: "cell fset"
  board :: "bool list list"
  mines_found :: "cell fset"

definition nearby_mines :: "minesweeper \<Rightarrow> cell \<Rightarrow> int" where
  "nearby_mines g cell =
     fold (\<lambda>(i, j) cnt.
             if (i, j) = cell then cnt
             else if 0 \<le> i \<and> i < game_height g \<and> 0 \<le> j \<and> j < game_width g
                  then (if board g ! nat i ! nat j then cnt + 1 else cnt)
                  else cnt)
          (List.product (range3 (fst cell)) (range3 (snd cell))) 0"

text \<open>A 3 by 3 board with mines at \<open>(0, 0)\<close> and \<open>(2, 0)\<close>.\<close>

definition game :: minesweeper where
  "game = \<lparr>game_height = 3, game_width = 3, game_mines = {|(0, 0), (2, 0)|},
           board = [[True, False, False], [False, False, False], [True, False, False]],
           mines_found = {||}\<rparr>"

lemma game_counts: "nearby_mines game (1, 1) = 2" "nearby_mines game (0, 1) = 1"
  by (simp_all add: nearby_mines_def game_def range3_def)

section \<open>Termination of observation ingestion\<close>

text \<open>The engine after the observation of \<open>(1, 1)\<close>, and the state of the second call when
  it enters \<open>inference_update\<close>.\<close>

definition obs1 :: ai where
  "obs1 = \<lparr>height = 3, width = 3, moves_made = {|(1, 1)|}, mines = {||}, safes = {|(1, 1)|},
           knowledge = [0], heap = (\<lambda>_. Sentence {||} 0)(0 := Sentence N8 2), nxt = 1\<rparr>"

lemma add_obs1: "add_knowledge (1, 1) 2 (init 3 3) = Some (Inr obs1)"
proof -
  let ?st2 = "mark_safe (1, 1) ((init 3 3)\<lparr>moves_made := finsert (1, 1) (moves_made (init 3 3))\<rparr>)"
  have nb: "fold (neighbour_step ?st2) (List.product (range3 (fst (1, 1))) (range3 (snd (1, 1)))) ({||}, 2)
            = (N8, 2)"
    by (simp add: range3_def neighbour_step_def init_def N8_def)
  have cl: "classify (Sentence N8 2) ?st2 = obs1"
    unfolding classify_def
    by (simp add: Sentence_def fcard_N8)
       (rule ai.equality; simp add: append_sentence_def obs1_def init_def Sentence_def fun_eq_iff)
  have "settled obs1"
    by (simp add: settled_def obs1_def Sentence_def fcard_N8) (simp add: N8_def)
  then have tu: "trivial_update obs1 = Inr obs1"
    by (rule trivial_update_settled)
  have "quiet obs1"
    by (simp add: quiet_def obs1_def sentence_eq_def)
  then have iu: "inference_update obs1 = Some (Inr obs1)"
    by (rule inference_update_quiet)
  show ?thesis
    unfolding add_knowledge_def Let_def nb
    by (simp add: cl tu iu del: mark_safe_fields)
qed

definition obs2 :: ai where
  "obs2 = \<lparr>height = 3, width = 3, moves_made = {|(0, 1), (1, 1)|}, mines = {||},
           safes = {|(0, 1), (1, 1)|}, knowledge = [0, 1],
           heap = (\<lambda>_. Sentence {||} 0)(0 := SX, 1 := SY), nxt = 2\<rparr>"

lemma obs2_stuck: "stuck obs2"
  by (simp add: stuck_def fresh_def three_def obs2_def)

lemma N8_minus: "N8 |-| {|(0, 1)|} = X7"
  by (auto simp: N8_def X7_def)

lemma add_obs2: "add_knowledge (0, 1) 1 obs1 = None"
proof -
  let ?st2 = "mark_safe (0, 1) (obs1\<lparr>moves_made := finsert (0, 1) (moves_made obs1)\<rparr>)"
  have nb: "fold (neighbour_step ?st2) (List.product (range3 (fst (0, 1))) (range3 (snd (0, 1)))) ({||}, 1)
            = (Y4, 1)"
    by (simp add: range3_def neighbour_step_def obs1_def Y4_def)
  have "(0, 1) |\<in>| N8" by (simp add: N8_def)
  then have h0: "sentence_mark_safe (0, 1) (Sentence N8 2) = SX"
    by (simp add: sentence_mark_safe_def Sentence_def SX_def N8_minus)
  have cl: "classify (Sentence Y4 1) ?st2 = obs2"
    unfolding SY_def[symmetric] classify_three[OF disjI1[OF refl]]
    by (rule ai.equality; simp add: append_sentence_def obs2_def obs1_def fun_eq_iff h0)
  have tu: "trivial_update obs2 = Inr obs2"
    using obs2_stuck by (intro trivial_update_settled three_settled) (simp add: stuck_def)
  have iu: "inference_update obs2 = None"
    by (rule stuck_diverges[OF obs2_stuck])
  show ?thesis
    unfolding add_knowledge_def Let_def nb
    by (simp add: cl tu iu del: mark_safe_fields)
qed

text \<open>
  Claim C1. The claim: \<open>inference_update\<close> halts on every reachable knowledge base, and so every
  call of \<open>add_knowledge\<close> returns. The code: on the 3 by 3 board with mines at \<open>(0, 0)\<close> and
  \<open>(2, 0)\<close> the cell \<open>(1, 1)\<close> has 2 mines nearby and the cell \<open>(0, 1)\<close> has 1. A fresh engine
  takes the first observation and returns. The second call leaves the sentences
  \<open>SX\<close> (seven cells, 2 mines) and \<open>SY\<close> (four cells, 1 mine) in the knowledge base; every pass
  of \<open>inference_update\<close> derives their difference again, appends it and sets \<open>change\<close>, since
  the loop never tests whether the derived sentence is new. The call never returns.
\<close>

theorem add_knowledge_does_not_return:
  "nearby_mines game (1, 1) = 2 \<and> nearby_mines game (0, 1) = 1 \<and>
   add_knowledge (1, 1) 2 (init 3 3) = Some (Inr obs1) \<and>
   add_knowledge (0, 1) 1 obs1 = None"
  by (simp add: game_counts add_obs1 add_obs2)

section \<open>Idempotence of marking\<close>

text \<open>
  Claim C7. Engine \<open>mark_safe\<close> and \<open>mark_mine\<close> are idempotent: for every cell and every
  engine state, marking the cell twice in a row gives the same engine state (all sets, the
  knowledge list and the cells and count of every sentence object) as marking it once. The
  same holds for the two marking operations of a single sentence.
\<close>

theorem mark_idempotent:
  "mark_safe c (mark_safe c st) = mark_safe c st \<and>
   mark_mine c (mark_mine c st) = mark_mine c st \<and>
   sentence_mark_safe c (sentence_mark_safe c s) = sentence_mark_safe c s \<and>
   sentence_mark_mine c (sentence_mark_mine c s) = sentence_mark_mine c s"
proof (intro conjI)
  show "mark_safe c (mark_safe c st) = mark_safe c st"
    by (rule ai.equality) (simp_all add: fun_eq_iff sentence_mark_safe_idem)
  show "mark_mine c (mark_mine c st) = mark_mine c st"
    by (rule ai.equality) (simp_all add: fun_eq_iff sentence_mark_mine_idem)
qed (simp_all add: sentence_mark_safe_idem sentence_mark_mine_idem)

section \<open>Negative counts\<close>

text \<open>
  Claim C9. A sentence whose count is negative is never treated as all-mine-resolved:
  \<open>known_mines\<close> returns the empty set for it, the body of the trivial-resolution loop
  either discards it (when it has no cells) or leaves the state and the flag as they are,
  and the classification of a new sentence with a negative count appends it without marking
  any cell.
\<close>

theorem negative_count_not_all_mines:
  assumes "count (heap st a) < 0"
  shows "known_mines (heap st a) = {||} \<and>
         trivial_step a (st, change) =
           (if cells (heap st a) = {||}
            then (case list_remove (heap st) (heap st a) (knowledge st) of
                    None \<Rightarrow> Inl ValueError
                  | Some k \<Rightarrow> Inr (st\<lparr>knowledge := k\<rparr>, change))
            else Inr (st, change)) \<and>
         classify (heap st a) st' = append_sentence (heap st a) st'"
  using assms by (auto simp: known_mines_def trivial_step_def classify_def Let_def)

definition neg_state :: ai where
  "neg_state = append_sentence (Sentence {|(0, 0)|} (- 1)) (init 3 3)"

theorem negative_count_not_all_mines_witness:
  "count (heap neg_state 0) < 0 \<and> known_mines (heap neg_state 0) = {||} \<and>
   trivial_step 0 (neg_state, False) = Inr (neg_state, False) \<and>
   mines (classify (heap neg_state 0) neg_state) = {||}"
proof -
  have neg: "count (heap neg_state 0) < 0"
    by (simp add: neg_state_def append_sentence_def init_def Sentence_def)
  have ne: "cells (heap neg_state 0) \<noteq> {||}"
    by (simp add: neg_state_def append_sentence_def init_def Sentence_def)
  from negative_count_not_all_mines[OF neg, of False neg_state] neg ne show ?thesis
    by (simp add: neg_state_def append_sentence_def init_def)
qed

section \<open>The safe-move query\<close>

text \<open>
  Claim C8. \<open>make_safe_move\<close> always has an outcome; every outcome leaves the whole engine
  state as it was, and returns \<open>None\<close> when \<open>safes - moves_made\<close> is empty and an element
  of that set otherwise.
\<close>

theorem safe_move_frame:
  "make_safe_move st \<noteq> {} \<and>
   (\<forall>(r, st') \<in> make_safe_move st.
      st' = st \<and>
      (if safes st |-| moves_made st = {||} then r = None
       else \<exists>c. r = Some c \<and> c |\<in>| safes st |-| moves_made st))"
  by (auto simp: make_safe_move_def Let_def)

theorem safe_move_frame_witness:
  "(Some (1, 1), mark_safe (1, 1) (init 3 3)) \<in> make_safe_move (mark_safe (1, 1) (init 3 3)) \<and>
   (1, 1) |\<in>| safes (mark_safe (1, 1) (init 3 3)) |-| moves_made (mark_safe (1, 1) (init 3 3)) \<and>
   make_safe_move (init 3 3) = {(None, init 3 3)}"
  using safe_move_frame[of "mark_safe (1, 1) (init 3 3)"]
  by (simp add: make_safe_move_def init_def)

section \<open>Monotonicity of the classification sets\<close>

definition monotone :: "ai \<Rightarrow> ai \<Rightarrow> bool" where
  "monotone st st' \<longleftrightarrow>
     moves_made st |\<subseteq>| moves_made st' \<and> mines st |\<subseteq>| mines st' \<and> safes st |\<subseteq>| safes st'"


text \<open>
  Claim C10. Every public engine operation is monotone on the three classification sets:
  after \<open>mark_mine\<close>, after \<open>mark_safe\<close>, after an \<open>add_knowledge\<close> call that returns, and
  after every outcome of \<open>make_safe_move\<close> and \<open>make_random_move\<close>, the sets
  \<open>moves_made\<close>, \<open>safes\<close> and \<open>mines\<close> contain their values from before the call.
\<close>

theorem operations_monotone:
  "monotone st (mark_mine c st) \<and> monotone st (mark_safe c st) \<and>
   (\<forall>st'. add_knowledge cell cnt st = Some (Inr st') \<longrightarrow> monotone st st') \<and>
   (\<forall>(r, st') \<in> make_safe_move st. monotone st st') \<and>
   (\<forall>(r, st') \<in> make_random_move st. monotone st st')"
proof (intro conjI allI impI)
  fix st' assume "add_knowledge cell cnt st = Some (Inr st')"
  from add_knowledge_grows[OF this] show "monotone st st'"
    by (auto simp: grows_def monotone_def)
qed (auto simp: monotone_def make_safe_move_def make_random_move_def Let_def)

theorem operations_monotone_witness:
  "add_knowledge (1, 1) 1 (init 3 3) = Some (Inr first_state) \<and> monotone (init 3 3) first_state \<and>
   (None, first_state) \<in> make_safe_move first_state \<and>
   (Some (0, 0), first_state) \<in> make_random_move first_state \<and>
   monotone first_state first_state"
proof -
  have safe: "(None, first_state) \<in> make_safe_move first_state"
    by (simp add: make_safe_move_def first_state_def)
  have "(0, 0) |\<in>| all_cells first_state |-| moves_made first_state |-| mines first_state"
    apply (simp add: all_cells_def first_state_def)
    apply (simp add: upto.simps)
    done
  then have rand: "(Some (0, 0), first_state) \<in> make_random_move first_state"
    by (auto simp: make_random_move_def Let_def)
  from operations_monotone[of "init 3 3" "(0, 0)" "(1, 1)" 1] add_first
  have "monotone (init 3 3) first_state" by blast
  moreover from operations_monotone[of first_state "(0, 0)" "(1, 1)" 1] safe
  have "monotone first_state first_state" by blast
  ultimately show ?thesis using add_first safe rand by simp
qed


section \<open>Observing a cell twice\<close>

text \<open>
  Counterexample to claim C4 as stated. On a fresh 3 by 3 board, \<open>add_knowledge((1, 1), 1)\<close>
  returns \<open>first_state\<close>, in which \<open>(1, 1)\<close> is in \<open>moves_made\<close>. The same call again
  returns normally and is not a no-op: it appends a second sentence object, so the knowledge
  list and the store differ from those before the call.
\<close>

theorem add_knowledge_repeated_cell_counterexample:
  "add_knowledge (1, 1) 1 (init 3 3) = Some (Inr first_state) \<and>
   (1, 1) |\<in>| moves_made first_state \<and>
   add_knowledge (1, 1) 1 first_state = Some (Inr second_state) \<and>
   knowledge first_state = [0] \<and> knowledge second_state = [0, 1] \<and>
   second_state \<noteq> first_state"
proof -
  have "knowledge second_state \<noteq> knowledge first_state"
    by (simp add: second_state_def first_state_def)
  then have "second_state \<noteq> first_state" by auto
  then show ?thesis
    by (simp add: add_first add_second) (simp add: first_state_def second_state_def)
qed

text \<open>
  Claim C4, amended. \<open>add_knowledge\<close> has no guard on \<open>moves_made\<close>. When it is invoked with
  a cell that is already in \<open>moves_made\<close> and returns, \<open>moves_made\<close> is the same as before
  the call, \<open>mines\<close> and \<open>safes\<close> contain their previous values, and the cell is in
  \<open>safes\<close>; the knowledge base may have changed.
\<close>

theorem add_knowledge_repeated_cell:
  assumes "cell |\<in>| moves_made st" and "add_knowledge cell cnt st = Some (Inr st')"
  shows "moves_made st' = moves_made st \<and> mines st |\<subseteq>| mines st' \<and> safes st |\<subseteq>| safes st' \<and>
         cell |\<in>| safes st'"
proof -
  from assms(1) have "finsert cell (moves_made st) = moves_made st" by auto
  with add_knowledge_grows[OF assms(2)] show ?thesis
    by (auto simp: grows_def)
qed

theorem add_knowledge_repeated_cell_witness:
  "(1, 1) |\<in>| moves_made first_state \<and>
   add_knowledge (1, 1) 1 first_state = Some (Inr second_state) \<and>
   moves_made second_state = moves_made first_state \<and>
   mines first_state |\<subseteq>| mines second_state \<and> safes first_state |\<subseteq>| safes second_state \<and>
   (1, 1) |\<in>| safes second_state"
proof -
  have m: "(1, 1) |\<in>| moves_made first_state"
    by (simp add: first_state_def)
  from add_knowledge_repeated_cell[OF m add_second] m add_second show ?thesis
    by simp
qed

section \<open>Trivial resolution of one sentence among others\<close>

definition clash_kb :: ai where
  "clash_kb = append_sentence (Sentence {|(0, 0), (0, 1)|} 2)
                (append_sentence (Sentence {|(0, 0)|} 0) (init 3 3))"

definition clash_end :: ai where
  "clash_end = \<lparr>height = 3, width = 3, moves_made = {||}, mines = {||}, safes = {|(0, 0)|},
                 knowledge = [1],
                 heap = (\<lambda>_. Sentence {||} 0)(1 := Sentence {|(0, 1)|} 2), nxt = 2\<rparr>"

lemma trivial_step_discard_head:
  "knowledge s = b # ks \<Longrightarrow> cells (heap s a) = {||} \<Longrightarrow> sentence_eq (heap s b) (heap s a) \<Longrightarrow>
   trivial_step a (s, ch) = Inr (s\<lparr>knowledge := ks\<rparr>, ch)"
  by (simp add: trivial_step_def)

lemma trivial_step_keep:
  "cells (heap s a) \<noteq> {||} \<Longrightarrow> count (heap s a) \<noteq> int (fcard (cells (heap s a))) \<Longrightarrow>
   count (heap s a) \<noteq> 0 \<Longrightarrow> trivial_step a (s, ch) = Inr (s, ch)"
  by (simp add: trivial_step_def)

lemma trivial_step_safe:
  "cells (heap s a) \<noteq> {||} \<Longrightarrow> count (heap s a) \<noteq> int (fcard (cells (heap s a))) \<Longrightarrow>
   count (heap s a) = 0 \<Longrightarrow> trivial_step a (s, ch) = Inr (mark_safes (cells (heap s a)) s, True)"
  by (simp add: trivial_step_def)

lemma clash_run: "trivial_update clash_kb = Inr clash_end"
proof -
  let ?st1 = "mark_safes {|(0, 0)|} clash_kb"
  let ?st2 = "?st1\<lparr>knowledge := [Suc 0]\<rparr>"
  have k: "knowledge clash_kb = [0, Suc 0]"
    and h: "heap clash_kb 0 = Sentence {|(0, 0)|} 0" "heap clash_kb (Suc 0) = Sentence {|(0, 0), (0, 1)|} 2"
    by (simp_all add: clash_kb_def append_sentence_def init_def)
  have k1: "knowledge ?st1 = [0, Suc 0]" by (simp add: k)
  have h1: "heap ?st1 0 = Sentence {||} 0" "heap ?st1 (Suc 0) = Sentence {|(0, 1)|} 2"
    by (auto simp: k h Sentence_def minus_safes_def)
  have h2: "heap ?st2 (Suc 0) = Sentence {|(0, 1)|} 2"
    using h1(2) by simp
  have s0: "trivial_step 0 (clash_kb, False) = Inr (?st1, True)"
    using trivial_step_safe[of clash_kb 0 False]
    by (simp add: h Sentence_def fcard_finsert_if fcard_fempty)
  have s1: "trivial_step (Suc 0) (?st1, True) = Inr (?st1, True)"
    by (rule trivial_step_keep) (simp_all add: h1 Sentence_def fcard_finsert_if fcard_fempty del: mark_safes_fields)
  have p1: "trivial_pass clash_kb = Inr (?st1, True)"
    unfolding trivial_pass_def k by (simp add: s0 s1 del: mark_safes_fields)
  have t0: "trivial_step 0 (?st1, False) = Inr (?st2, False)"
    by (rule trivial_step_discard_head[OF k1]) (simp_all add: h1 Sentence_def sentence_eq_def del: mark_safes_fields)
  have t1: "trivial_step (Suc 0) (?st2, False) = Inr (?st2, False)"
    by (rule trivial_step_keep) (simp_all add: h1 Sentence_def fcard_finsert_if fcard_fempty del: mark_safes_fields)
  have p2: "trivial_pass ?st1 = Inr (?st2, False)"
    unfolding trivial_pass_def k1 by (simp add: t0 t1 del: mark_safes_fields)
  have "trivial_update clash_kb = Inr ?st2"
    by (simp add: trivial_update_unfold(1)[OF p1] trivial_update_unfold(2)[OF p2])
  also have "?st2 = clash_end"
    by (rule ai.equality)
       (auto simp: clash_end_def clash_kb_def append_sentence_def init_def fun_eq_iff Sentence_def
          minus_safes_def)
  finally show ?thesis .
qed

text \<open>
  Counterexample to claim C6 as stated. The knowledge base \<open>[({(0,0)}, 0), ({(0,0),(0,1)}, 2)]\<close>
  contains the sentence \<open>({A, B}, 2)\<close>. \<open>trivial_update\<close> first resolves the other sentence and
  marks \<open>(0,0)\<close> safe, which turns the second sentence into \<open>({(0,1)}, 2)\<close>; that sentence is
  neither all mines nor all safe, so no cell is marked as a mine and the sentence stays in the
  knowledge base.
\<close>

theorem trivial_update_examples_counterexample:
  "knowledge clash_kb = [0, 1] \<and>
   heap clash_kb 0 = Sentence {|(0, 0)|} 0 \<and> heap clash_kb 1 = Sentence {|(0, 0), (0, 1)|} 2 \<and>
   trivial_update clash_kb = Inr clash_end \<and>
   mines clash_end = {||} \<and> safes clash_end = {|(0, 0)|} \<and>
   knowledge clash_end = [1] \<and> heap clash_end 1 = Sentence {|(0, 1)|} 2"
  by (simp add: clash_run) (simp add: clash_kb_def clash_end_def append_sentence_def init_def)

text \<open>
  Claim C6, amended. Let the knowledge base contain the sentence \<open>({A, B}, 2)\<close> and let all
  its sentences be true of one mine placement \<open>T\<close> (the count of every sentence is the number
  of its cells in \<open>T\<close>). Then \<open>trivial_update\<close> returns normally, marks \<open>A\<close> and \<open>B\<close> as mines
  and removes the sentence from the knowledge base, leaving the sentence object without
  cells. Under the same condition a sentence \<open>({A, B, C}, 0)\<close> has \<open>A\<close>, \<open>B\<close> and \<open>C\<close> marked
  safe and is removed.
\<close>

theorem trivial_update_resolves_sentence:
  assumes "consistent T st" and "a \<in> set (knowledge st)"
  shows "\<exists>st'. trivial_update st = Inr st' \<and>
           (heap st a = Sentence {|A, B|} 2 \<longrightarrow>
              A |\<in>| mines st' \<and> B |\<in>| mines st' \<and>
              a \<notin> set (knowledge st') \<and> cells (heap st' a) = {||}) \<and>
           (heap st a = Sentence {|A, B, C|} 0 \<longrightarrow>
              A |\<in>| safes st' \<and> B |\<in>| safes st' \<and> C |\<in>| safes st' \<and>
              a \<notin> set (knowledge st') \<and> cells (heap st' a) = {||})"
proof -
  from trivial_update_returns obtain st' where run: "trivial_update st = Inr st'" by blast
  from assms have cnt: "count (heap st a) = int (fcard (cells (heap st a) |\<inter>| T))"
    by (simp add: consistent_def)
  have mines: "A |\<in>| mines st' \<and> B |\<in>| mines st' \<and> a \<notin> set (knowledge st') \<and> cells (heap st' a) = {||}"
    if h: "heap st a = Sentence {|A, B|} 2"
  proof -
    from cnt h have two: "fcard ({|A, B|} |\<inter>| T) = 2" by (simp add: Sentence_def)
    have "fcard ({|A, B|} |\<inter>| T) \<le> fcard {|A, B|}" by (intro fcard_mono) auto
    moreover have "fcard {|A, B|} \<le> 2" by (simp add: fcard_finsert_if fcard_fempty)
    ultimately have "fcard ({|A, B|} |\<inter>| T) = fcard {|A, B|}" using two by simp
    then have "{|A, B|} |\<subseteq>| T" by (rule fcard_inter_full)
    then have "cells (heap st a) |\<subseteq>| T" by (simp add: h Sentence_def)
    with trivial_update_resolves[OF assms, of ] run h show ?thesis
      by (auto simp: Sentence_def)
  qed
  have safes: "A |\<in>| safes st' \<and> B |\<in>| safes st' \<and> C |\<in>| safes st' \<and>
      a \<notin> set (knowledge st') \<and> cells (heap st' a) = {||}"
    if h: "heap st a = Sentence {|A, B, C|} 0"
  proof -
    from cnt h have "cells (heap st a) |\<inter>| T = {||}" by (simp add: Sentence_def)
    with trivial_update_resolves[OF assms] run h show ?thesis
      by (auto simp: Sentence_def)
  qed
  from run mines safes show ?thesis by blast
qed

definition mines_kb :: ai where
  "mines_kb = append_sentence (Sentence {|(0, 0), (0, 1)|} 2)
                (append_sentence (Sentence {|(0, 0), (0, 1), (0, 2)|} 2) (init 3 3))"

definition safes_kb :: ai where
  "safes_kb = append_sentence (Sentence {|(0, 0), (0, 1), (0, 2)|} 0)
                (append_sentence (Sentence {|(0, 0), (1, 0)|} 1) (init 3 3))"

theorem trivial_update_resolves_sentence_witness:
  "consistent {|(0, 0), (0, 1)|} mines_kb \<and> knowledge mines_kb = [0, 1] \<and>
   heap mines_kb 0 = Sentence {|(0, 0), (0, 1), (0, 2)|} 2 \<and>
   heap mines_kb 1 = Sentence {|(0, 0), (0, 1)|} 2 \<and>
   (\<exists>st'. trivial_update mines_kb = Inr st' \<and> (0, 0) |\<in>| mines st' \<and> (0, 1) |\<in>| mines st' \<and>
          1 \<notin> set (knowledge st')) \<and>
   consistent {|(1, 0)|} safes_kb \<and> knowledge safes_kb = [0, 1] \<and>
   heap safes_kb 0 = Sentence {|(0, 0), (1, 0)|} 1 \<and>
   heap safes_kb 1 = Sentence {|(0, 0), (0, 1), (0, 2)|} 0 \<and>
   (\<exists>st'. trivial_update safes_kb = Inr st' \<and> (0, 0) |\<in>| safes st' \<and> (0, 1) |\<in>| safes st' \<and>
          (0, 2) |\<in>| safes st' \<and> 1 \<notin> set (knowledge st'))"
proof -
  have m: "knowledge mines_kb = [0, 1]"
    "heap mines_kb 0 = Sentence {|(0, 0), (0, 1), (0, 2)|} 2"
    "heap mines_kb 1 = Sentence {|(0, 0), (0, 1)|} 2"
    by (simp_all add: mines_kb_def append_sentence_def init_def)
  have s: "knowledge safes_kb = [0, 1]"
    "heap safes_kb 0 = Sentence {|(0, 0), (1, 0)|} 1"
    "heap safes_kb 1 = Sentence {|(0, 0), (0, 1), (0, 2)|} 0"
    by (simp_all add: safes_kb_def append_sentence_def init_def)
  have i1: "{|(0, 0), (0, 1), (0, 2)|} |\<inter>| {|(0, 0), (0, 1)|} = {|(0, 0), (0, 1) :: cell|}"
    "{|(0, 0), (0, 1)|} |\<inter>| {|(0, 0), (0, 1)|} = {|(0, 0), (0, 1) :: cell|}"
    "{|(0, 0), (1, 0)|} |\<inter>| {|(1, 0)|} = {|(1, 0) :: cell|}"
    "{|(0, 0), (0, 1), (0, 2)|} |\<inter>| {|(1, 0)|} = ({||} :: cell fset)"
    by auto
  have cm: "consistent {|(0, 0), (0, 1)|} mines_kb"
    unfolding consistent_def m(1) using m(2,3)
    by (simp add: Sentence_def i1 fcard_finsert_if fcard_fempty)
  have cs: "consistent {|(1, 0)|} safes_kb"
    unfolding consistent_def s(1) using s(2,3)
    by (simp add: Sentence_def i1 fcard_finsert_if fcard_fempty)
  from trivial_update_resolves_sentence[OF cm, of 1 "(0, 0)" "(0, 1)" "(0, 0)"] m
  have r1: "\<exists>st'. trivial_update mines_kb = Inr st' \<and> (0, 0) |\<in>| mines st' \<and> (0, 1) |\<in>| mines st' \<and>
          1 \<notin> set (knowledge st')"
    by auto
  from trivial_update_resolves_sentence[OF cs, of 1 "(0, 0)" "(0, 1)" "(0, 2)"] s
  have r2: "\<exists>st'. trivial_update safes_kb = Inr st' \<and> (0, 0) |\<in>| safes st' \<and> (0, 1) |\<in>| safes st' \<and>
          (0, 2) |\<in>| safes st' \<and> 1 \<notin> set (knowledge st')"
    by auto
  from cm cs m s r1 r2 show ?thesis by simp
qed

section \<open>Subset inference\<close>




section \<open>Sentences never mention classified cells\<close>

text \<open>
  Claim C2. In every state that is reached from a fresh engine by any sequence of
  \<open>mark_mine\<close>, \<open>mark_safe\<close>, returning \<open>add_knowledge\<close> calls, the two fixpoint loops and the
  move queries, no sentence of the knowledge base contains a cell that is in \<open>mines\<close> or in
  \<open>safes\<close>.
\<close>

theorem knowledge_cells_unclassified:
  assumes "reachable st"
  shows "\<forall>a\<in>set (knowledge st). \<forall>c. c |\<in>| cells (heap st a) \<longrightarrow> c |\<notin>| mines st \<and> c |\<notin>| safes st"
  using reachable_inv[OF assms] unfolding inv_def kb_clean_def by blast

theorem knowledge_cells_unclassified_witness:
  "reachable (mark_mine (0, 0) first_state) \<and>
   knowledge (mark_mine (0, 0) first_state) = [0] \<and>
   (0, 1) |\<in>| cells (heap (mark_mine (0, 0) first_state) 0) \<and>
   (0, 1) |\<notin>| mines (mark_mine (0, 0) first_state) \<and>
   (0, 1) |\<notin>| safes (mark_mine (0, 0) first_state) \<and>
   (0, 0) |\<in>| mines (mark_mine (0, 0) first_state) \<and>
   (0, 0) |\<notin>| cells (heap (mark_mine (0, 0) first_state) 0)"
proof -
  have r: "reachable (mark_mine (0, 0) first_state)"
    by (intro r_mark_mine r_add_knowledge[OF r_init add_first])
  have k: "knowledge (mark_mine (0, 0) first_state) = [0]"
    "(0, 1) |\<in>| cells (heap (mark_mine (0, 0) first_state) 0)"
    "(0, 0) |\<in>| mines (mark_mine (0, 0) first_state)"
    by (simp_all add: first_state_def Sentence_def N8_def)
  from knowledge_cells_unclassified[OF r] k r show ?thesis
    by auto
qed

section \<open>Disjointness of mines and safes\<close>

text \<open>
  Counterexample to claim C3 as stated. The engine's marking operations do not check the
  other set: \<open>mark_mine\<close> followed by \<open>mark_safe\<close> on the same cell leaves the cell in both
  \<open>mines\<close> and \<open>safes\<close>.
\<close>

theorem mines_safes_disjoint_counterexample:
  "reachable (mark_safe (0, 0) (mark_mine (0, 0) (init 3 3))) \<and>
   mines (mark_safe (0, 0) (mark_mine (0, 0) (init 3 3))) |\<inter>|
   safes (mark_safe (0, 0) (mark_mine (0, 0) (init 3 3))) = {|(0, 0)|}"
proof -
  have "reachable (mark_safe (0, 0) (mark_mine (0, 0) (init 3 3)))"
    by (intro r_mark_safe r_mark_mine r_init)
  moreover have "mines (mark_safe (0, 0) (mark_mine (0, 0) (init 3 3))) |\<inter>|
      safes (mark_safe (0, 0) (mark_mine (0, 0) (init 3 3))) = {|(0, 0)|}"
    by (simp add: init_def)
  ultimately show ?thesis by (rule conjI)
qed

text \<open>
  Claim C3, amended. \<open>mines\<close> and \<open>safes\<close> are disjoint in every state reached from a fresh
  engine by \<open>mark_mine(c)\<close> with \<open>c\<close> not in \<open>safes\<close>, \<open>mark_safe(c)\<close> with \<open>c\<close> not in \<open>mines\<close>,
  returning \<open>add_knowledge(cell, count)\<close> calls with \<open>cell\<close> not in \<open>mines\<close> (for any count),
  the two fixpoint loops and the move queries.
\<close>

theorem mines_safes_disjoint:
  assumes "reachable_guarded st"
  shows "mines st |\<inter>| safes st = {||}"
  using reachable_guarded_inv[OF assms] by (simp add: inv_def)

theorem mines_safes_disjoint_witness:
  "reachable_guarded (mark_mine (0, 0) first_state) \<and>
   mines (mark_mine (0, 0) first_state) = {|(0, 0)|} \<and>
   safes (mark_mine (0, 0) first_state) = {|(1, 1)|} \<and>
   mines (mark_mine (0, 0) first_state) |\<inter>| safes (mark_mine (0, 0) first_state) = {||}"
proof -
  have "reachable_guarded first_state"
    by (rule g_add_knowledge[OF g_init _ add_first]) (simp add: init_def)
  then have "reachable_guarded (mark_mine (0, 0) first_state)"
    by (rule g_mark_mine) (simp add: first_state_def)
  from mines_safes_disjoint[OF this] this show ?thesis
    by (simp add: first_state_def)
qed

end
